theory Spec2Isabelle
  imports Complex_Main "HOL-Library.Sublist"
begin

section \<open>Python strings\<close>

text \<open>
  A Python \<^verbatim>\<open>str\<close> is a sequence of Unicode code points; a code point is a natural
  number. ASCII literals of the script are written as HOL strings and converted by
  \<open>lit\<close>; the non-ASCII literals are given by their code points.
\<close>

type_synonym codepoint = nat
type_synonym str = "codepoint list"

definition lit :: "string \<Rightarrow> str" where
  "lit cs = map of_char cs"

text \<open>
  \<^verbatim>\<open>str.isspace\<close> of one code point: the characters \<^verbatim>\<open>str.strip()\<close> removes when it
  is called without an argument.
\<close>

definition isspace :: "codepoint \<Rightarrow> bool" where
  "isspace c \<longleftrightarrow>
     (9 \<le> c \<and> c \<le> 13) \<or> (28 \<le> c \<and> c \<le> 32) \<or> c = 133 \<or> c = 160 \<or> c = 5760 \<or>
     (8192 \<le> c \<and> c \<le> 8202) \<or> c = 8232 \<or> c = 8233 \<or> c = 8239 \<or> c = 8287 \<or> c = 12288"

definition strip :: "str \<Rightarrow> str" where
  "strip u = rev (dropWhile isspace (rev (dropWhile isspace u)))"

definition startswith :: "str \<Rightarrow> str \<Rightarrow> bool" where
  "startswith u p \<longleftrightarrow> take (length p) u = p"

definition endswith :: "str \<Rightarrow> str \<Rightarrow> bool" where
  "endswith u p \<longleftrightarrow> length p \<le> length u \<and> drop (length u - length p) u = p"

text \<open>\<^verbatim>\<open>w in n\<close> on strings: \<open>w\<close> occurs in \<open>n\<close> as a contiguous substring.\<close>

fun str_in :: "str \<Rightarrow> str \<Rightarrow> bool" where
  "str_in w [] = (w = [])"
| "str_in w (c # cs) = (take (length w) (c # cs) = w \<or> str_in w cs)"

section \<open>The regular expressions of the script\<close>

text \<open>
  Under \<^verbatim>\<open>re.I\<close> a pattern letter matches a character whose simple lower-case
  mapping is that letter. For the letters that occur in the patterns of the script
  (a, d, e, f, n, t) these are the letter itself and its ASCII capital; every other
  pattern character matches itself only.
\<close>

definition ci_char :: "codepoint \<Rightarrow> codepoint \<Rightarrow> bool" where
  "ci_char p c \<longleftrightarrow> c = p \<or> (97 \<le> p \<and> p \<le> 122 \<and> c + 32 = p)"

text \<open>
  \<open>ci_prefix p u\<close> matches the literal \<open>p\<close> at the start of \<open>u\<close>, ignoring case, and
  returns the text after the match.
\<close>

fun ci_prefix :: "str \<Rightarrow> str \<Rightarrow> str option" where
  "ci_prefix [] u = Some u"
| "ci_prefix (p # ps) [] = None"
| "ci_prefix (p # ps) (c # cs) = (if ci_char p c then ci_prefix ps cs else None)"

text \<open>
  \<^verbatim>\<open>\(feat[^\)]*\)\<close> with \<^verbatim>\<open>re.I\<close>, tried at the start of \<open>u\<close>: the literal
  \<^verbatim>\<open>(feat\<close>, then every character up to the first closing parenthesis, which must
  exist. The result is the text after the match.
\<close>

definition match_feat :: "str \<Rightarrow> str option" where
  "match_feat u =
     (case ci_prefix (lit ''(feat'') u of
        None \<Rightarrow> None
      | Some r \<Rightarrow> (case dropWhile (\<lambda>c. c \<noteq> 41) r of [] \<Rightarrow> None | _ # rest \<Rightarrow> Some rest))"

text \<open>
  \<^verbatim>\<open>\[.*?\]\<close> tried at the start of \<open>u\<close>: an opening bracket, then as few characters
  other than a line feed as possible, then a closing bracket.
\<close>

definition match_bracket :: "str \<Rightarrow> str option" where
  "match_bracket u =
     (case u of
        [] \<Rightarrow> None
      | c # cs \<Rightarrow>
          if c = 91 then
            (case dropWhile (\<lambda>d. d \<noteq> 93 \<and> d \<noteq> 10) cs of
               [] \<Rightarrow> None
             | d # rest \<Rightarrow> if d = 93 then Some rest else None)
          else None)"

lemma ci_prefix_length: "ci_prefix p u = Some r \<Longrightarrow> length r + length p = length u"
  by (induction p u rule: ci_prefix.induct) (auto split: if_splits)

lemma dropWhile_length_le: "dropWhile P xs = y # ys \<Longrightarrow> length ys < length xs"
  by (metis length_dropWhile_le length_Cons less_eq_Suc_le)

lemma match_feat_length: "match_feat u = Some r \<Longrightarrow> length r < length u"
  unfolding match_feat_def
  by (auto split: option.splits list.splits dest!: ci_prefix_length dropWhile_length_le)

lemma match_bracket_length: "match_bracket u = Some r \<Longrightarrow> length r < length u"
  unfolding match_bracket_def
  by (auto split: option.splits list.splits if_splits dest!: dropWhile_length_le)

text \<open>
  \<^verbatim>\<open>re.sub(pattern, "", u)\<close>: scan from the left; where the pattern matches, drop the
  match and go on after it; elsewhere keep the character. Neither pattern matches the
  empty string.
\<close>

function sub_feat :: "str \<Rightarrow> str" where
  "sub_feat [] = []"
| "sub_feat (c # cs) =
     (case match_feat (c # cs) of Some rest \<Rightarrow> sub_feat rest | None \<Rightarrow> c # sub_feat cs)"
  by pat_completeness auto
termination
  by (relation "measure length") (auto dest: match_feat_length)

function sub_bracket :: "str \<Rightarrow> str" where
  "sub_bracket [] = []"
| "sub_bracket (c # cs) =
     (case match_bracket (c # cs) of Some rest \<Rightarrow> sub_bracket rest | None \<Rightarrow> c # sub_bracket cs)"
  by pat_completeness auto
termination
  by (relation "measure length") (auto dest: match_bracket_length)

section \<open>Name Normalizer\<close>

definition clean_name :: "str \<Rightarrow> str" where
  "clean_name name = strip (sub_bracket (sub_feat name))"

section \<open>Splitter\<close>

text \<open>
  The separator pattern \<^verbatim>\<open>[;,/]| feat\.| ft\. |&| and \<close> with \<^verbatim>\<open>re.I\<close>, tried at
  the start of \<open>u\<close>; the alternatives are tried in the order they are written.
\<close>

definition match_sep :: "str \<Rightarrow> str option" where
  "match_sep u =
     (case u of
        [] \<Rightarrow> None
      | c # cs \<Rightarrow>
          if c = 59 \<or> c = 44 \<or> c = 47 then Some cs
          else (case ci_prefix (lit '' feat.'') u of
                  Some r \<Rightarrow> Some r
                | None \<Rightarrow>
                    (case ci_prefix (lit '' ft. '') u of
                       Some r \<Rightarrow> Some r
                     | None \<Rightarrow> if c = 38 then Some cs else ci_prefix (lit '' and '') u)))"

lemma match_sep_length: "match_sep u = Some r \<Longrightarrow> length r < length u"
  unfolding match_sep_def
  by (auto simp: lit_def split: list.splits option.splits if_splits dest!: ci_prefix_length)

text \<open>
  \<^verbatim>\<open>re.split(pattern, u)\<close>: the pieces of \<open>u\<close> between the matches found from left to
  right, empty pieces included; \<open>cur\<close> is the piece being read.
\<close>

function re_split :: "str \<Rightarrow> str \<Rightarrow> str list" where
  "re_split cur [] = [cur]"
| "re_split cur (c # cs) =
     (case match_sep (c # cs) of
        Some rest \<Rightarrow> cur # re_split [] rest
      | None \<Rightarrow> re_split (cur @ [c]) cs)"
  by pat_completeness auto
termination
  by (relation "measure (\<lambda>(cur, u). length u)") (auto dest: match_sep_length)

text \<open>The loop of \<^verbatim>\<open>split_artists\<close> over the pieces.\<close>

fun keep_names :: "str list \<Rightarrow> str list" where
  "keep_names [] = []"
| "keep_names (p # ps) =
     (let p' = strip (clean_name p) in if p' = [] then keep_names ps else p' # keep_names ps)"

section \<open>Python values\<close>

text \<open>
  The values the script handles dynamically: what \<^verbatim>\<open>json.loads\<close> returns and what a
  row of \<^verbatim>\<open>csv.DictReader\<close> holds. A float is a rational or one of the values
  \<^verbatim>\<open>inf\<close>, \<^verbatim>\<open>-inf\<close>, \<^verbatim>\<open>nan\<close> (only its truth value is ever used); a dict is
  the list of its items.
\<close>

datatype pyval =
    PNone
  | PBool bool
  | PInt int
  | PFloat rat
  | PNonFinite
  | PStr str
  | PList "pyval list"
  | PDict "(str \<times> pyval) list"

datatype error = AttributeError | TypeError | UnicodeEncodeError | SystemExit int

fun truthy :: "pyval \<Rightarrow> bool" where
  "truthy PNone = False"
| "truthy (PBool b) = b"
| "truthy (PInt i) = (i \<noteq> 0)"
| "truthy (PFloat q) = (q \<noteq> 0)"
| "truthy PNonFinite = True"
| "truthy (PStr u) = (u \<noteq> [])"
| "truthy (PList vs) = (vs \<noteq> [])"
| "truthy (PDict kvs) = (kvs \<noteq> [])"

definition py_or :: "pyval \<Rightarrow> pyval \<Rightarrow> pyval" where
  "py_or a b = (if truthy a then a else b)"

text \<open>\<^verbatim>\<open>d.get(k)\<close> on the items of a dict.\<close>

definition get :: "(str \<times> pyval) list \<Rightarrow> str \<Rightarrow> pyval" where
  "get kvs k = (case map_of kvs k of Some v \<Rightarrow> v | None \<Rightarrow> PNone)"

text \<open>\<^verbatim>\<open>v.get(k)\<close> on any value: only a dict has the method.\<close>

definition py_get :: "pyval \<Rightarrow> str \<Rightarrow> error + pyval" where
  "py_get v k = (case v of PDict kvs \<Rightarrow> Inr (get kvs k) | _ \<Rightarrow> Inl AttributeError)"

definition split_artists :: "pyval \<Rightarrow> error + str list" where
  "split_artists raw =
     (if \<not> truthy raw then Inr []
      else (case raw of
              PStr u \<Rightarrow> Inr (keep_names (re_split [] u))
            | _ \<Rightarrow> Inl TypeError))"

section \<open>Region Classifier\<close>

definition REGION_HINTS :: "(str \<times> str list) list" where
  "REGION_HINTS =
     [(lit ''fr'', map lit [''nekfeu'', ''damso'', ''laylow'', ''freeze corleone'', ''vald'',
         ''pnl'', ''ninho'', ''gazo'', ''alpha wann'', ''booba'', ''jul'', ''sch'']),
      (lit ''uk'', map lit [''central cee'', ''dave'', ''stormzy'', ''aj tracey'', ''skepta'',
         ''headie one'', ''arrdee'', ''unknown t'', ''digga d'']),
      (lit ''us'', map lit [''kendrick lamar'', ''travis scott'', ''kanye west'', ''drake'',
         ''j. cole'', ''21 savage'', ''future'', ''lil baby'', ''playboi carti'',
         ''young thug''])]"

text \<open>The character class of \<^verbatim>\<open>guess_region\<close>: e-acute, e-grave, a-grave, u-grave,
  c-cedilla, i-circumflex, i-diaeresis, o-circumflex, e-circumflex, a-circumflex.\<close>

definition accented :: "codepoint list" where
  "accented = [233, 232, 224, 249, 231, 238, 239, 244, 234, 226]"

text \<open>The loop over \<^verbatim>\<open>REGION_HINTS.items()\<close>, in insertion order.\<close>

fun region_loop :: "(str \<times> str list) list \<Rightarrow> str \<Rightarrow> str option" where
  "region_loop [] n = None"
| "region_loop ((reg, ws) # rest) n =
     (if list_ex (\<lambda>w. str_in w n) ws then Some reg else region_loop rest n)"

text \<open>
  \<^verbatim>\<open>str.lower\<close> follows the Unicode case tables, which are not part of the script:
  it is the parameter \<open>lower\<close> of every function that calls it.
\<close>

definition guess_region :: "(str \<Rightarrow> str) \<Rightarrow> str \<Rightarrow> str" where
  "guess_region lower nm =
     (let n = lower nm in
      case region_loop REGION_HINTS n of
        Some reg \<Rightarrow> reg
      | None \<Rightarrow> if list_ex (\<lambda>c. c \<in> set accented) n then lit ''fr'' else lit ''other'')"

section \<open>Image Resolver\<close>

definition normalize_image_url :: "(str \<Rightarrow> str) \<Rightarrow> str \<Rightarrow> str" where
  "normalize_image_url lower u =
     (if u = [] then []
      else
        let u1 = takeWhile (\<lambda>c. c \<noteq> 63) u;
            u2 = (if startswith u1 (lit ''//'') then lit ''https:'' @ u1 else u1);
            u3 = (if startswith u2 (lit ''/'') then lit ''https://duckduckgo.com'' @ u2 else u2)
        in if startswith u3 (lit ''http://'') \<or> startswith u3 (lit ''https://'') then
             (if list_ex (\<lambda>ext. endswith (lower u3) ext)
                   (map lit [''.jpg'', ''.jpeg'', ''.png'', ''.gif'', ''.webp''])
              then u3 else u3)
           else [])"

text \<open>
  The test \<^verbatim>\<open>if url_icon and url_icon.strip()\<close> on the value found for an icon:
  \<open>Some u\<close> when the branch is taken with the string \<open>u\<close>, \<open>None\<close> when it is not; a
  true value that is not a string has no \<^verbatim>\<open>strip\<close>.
\<close>

definition usable :: "pyval \<Rightarrow> error + str option" where
  "usable v =
     (if \<not> truthy v then Inr None
      else (case v of
              PStr u \<Rightarrow> Inr (if strip u \<noteq> [] then Some u else None)
            | _ \<Rightarrow> Inl AttributeError))"

text \<open>
  The icon of a dict \<open>d\<close>: \<^verbatim>\<open>icon = d.get("Icon") or {}\<close>, then
  \<^verbatim>\<open>url_icon = icon.get("URL") or icon.get("url")\<close>, then the test above.
\<close>

definition icon_url :: "(str \<times> pyval) list \<Rightarrow> error + str option" where
  "icon_url d =
     (let icon = py_or (get d (lit ''Icon'')) (PDict []) in
      case py_get icon (lit ''URL'') of
        Inl e \<Rightarrow> Inl e
      | Inr a \<Rightarrow>
          (case py_get icon (lit ''url'') of
             Inl e \<Rightarrow> Inl e
           | Inr b \<Rightarrow> usable (py_or a b)))"

text \<open>
  The loops over the related topics. A result \<open>Some r\<close> means that the function returns
  \<open>r\<close> from inside the loop, \<open>None\<close> that the loop ends without returning.
\<close>

fun scan_topics :: "(str \<Rightarrow> str) \<Rightarrow> pyval list \<Rightarrow> error + str option" where
  "scan_topics lower [] = Inr None"
| "scan_topics lower (sub # subs) =
     (case sub of
        PDict d \<Rightarrow>
          (case icon_url d of
             Inl e \<Rightarrow> Inl e
           | Inr (Some u) \<Rightarrow> Inr (Some (normalize_image_url lower u))
           | Inr None \<Rightarrow> scan_topics lower subs)
      | _ \<Rightarrow> scan_topics lower subs)"

definition scan_nested :: "(str \<Rightarrow> str) \<Rightarrow> pyval \<Rightarrow> error + str option" where
  "scan_nested lower topics =
     (if truthy topics then
        (case topics of PList subs \<Rightarrow> scan_topics lower subs | _ \<Rightarrow> Inr None)
      else Inr None)"

fun scan_related :: "(str \<Rightarrow> str) \<Rightarrow> pyval list \<Rightarrow> error + str option" where
  "scan_related lower [] = Inr None"
| "scan_related lower (item # items) =
     (case item of
        PDict d \<Rightarrow>
          (case icon_url d of
             Inl e \<Rightarrow> Inl e
           | Inr (Some u) \<Rightarrow> Inr (Some (normalize_image_url lower u))
           | Inr None \<Rightarrow>
               (case scan_nested lower (get d (lit ''Topics'')) of
                  Inl e \<Rightarrow> Inl e
                | Inr (Some r) \<Rightarrow> Inr (Some r)
                | Inr None \<Rightarrow> scan_related lower items))
      | _ \<Rightarrow> scan_related lower items)"

text \<open>\<^verbatim>\<open>ddg_search_image\<close> from the parsed response \<open>j\<close> on.\<close>

definition ddg_extract :: "(str \<Rightarrow> str) \<Rightarrow> pyval \<Rightarrow> error + str" where
  "ddg_extract lower j =
     (case j of
        PDict d \<Rightarrow>
          (let img = py_or (get d (lit ''Image'')) (get d (lit ''image'')) in
           case (case img of PStr u \<Rightarrow> if u \<noteq> [] \<and> strip u \<noteq> [] then Some u else None
                 | _ \<Rightarrow> None) of
             Some u \<Rightarrow> Inr (normalize_image_url lower u)
           | None \<Rightarrow>
               (let rt = py_or (get d (lit ''RelatedTopics'')) (PList []) in
                case (case rt of PList items \<Rightarrow> scan_related lower items | _ \<Rightarrow> Inr None) of
                  Inl e \<Rightarrow> Inl e
                | Inr (Some r) \<Rightarrow> Inr r
                | Inr None \<Rightarrow>
                    (let abs_img = get d (lit ''AbstractImage'') in
                     if truthy abs_img then
                       (case abs_img of
                          PStr u \<Rightarrow> Inr (normalize_image_url lower u)
                        | _ \<Rightarrow> Inl AttributeError)
                     else Inr [])))
      | _ \<Rightarrow> Inl AttributeError)"

text \<open>
  The outside world of \<^verbatim>\<open>ddg_search_image\<close>: \<open>quote\<close> is \<^verbatim>\<open>urllib.parse.quote\<close>
  (it raises on a string that UTF-8 cannot encode) and \<open>fetch url\<close> is the outcome of the
  \<^verbatim>\<open>try\<close> block, \<open>None\<close> when the request, the decoding or \<^verbatim>\<open>json.loads\<close> raises.
\<close>

definition ddg_search_image ::
  "(str \<Rightarrow> str) \<Rightarrow> (str \<Rightarrow> error + str) \<Rightarrow> (str \<Rightarrow> pyval option) \<Rightarrow> str \<Rightarrow> error + str" where
  "ddg_search_image lower quote fetch artist =
     (case quote (artist @ lit '' musician'') of
        Inl e \<Rightarrow> Inl e
      | Inr query \<Rightarrow>
          (let url = lit ''https://api.duckduckgo.com/?q='' @ query
                       @ lit ''&format=json&no_html=1&skip_disambig=1'' in
           case fetch url of
             None \<Rightarrow> Inr []
           | Some j \<Rightarrow> ddg_extract lower j))"

section \<open>Catalog Builder\<close>

text \<open>The inner loop of \<^verbatim>\<open>read_csv\<close> over the parts of one row.\<close>

fun add_parts :: "(str \<Rightarrow> str) \<Rightarrow> str list \<Rightarrow> str list \<times> str set \<Rightarrow> str list \<times> str set" where
  "add_parts lower [] st = st"
| "add_parts lower (p # ps) (artists, seen) =
     (let key = lower p in
      if key \<notin> seen then add_parts lower ps (artists @ [p], insert key seen)
      else add_parts lower ps (artists, seen))"

text \<open>A row of \<^verbatim>\<open>csv.DictReader\<close> is a dict from column names to cell values.\<close>

type_synonym row = "(str \<times> pyval) list"

definition raw_cell :: "row \<Rightarrow> pyval" where
  "raw_cell r =
     py_or (py_or (py_or (get r (lit ''Artist Name(s)'')) (get r (lit ''artist'')))
                  (get r (lit ''Artist'')))
           (PStr [])"

fun read_rows ::
  "(str \<Rightarrow> str) \<Rightarrow> row list \<Rightarrow> str list \<times> str set \<Rightarrow> error + str list \<times> str set" where
  "read_rows lower [] st = Inr st"
| "read_rows lower (r # rs) st =
     (case split_artists (raw_cell r) of
        Inl e \<Rightarrow> Inl e
      | Inr parts \<Rightarrow> read_rows lower rs (add_parts lower parts st))"

text \<open>
  \<open>file\<close> is the content of the file at \<^verbatim>\<open>path\<close> as \<^verbatim>\<open>csv.DictReader\<close> yields it,
  \<open>None\<close> when the file does not exist.
\<close>

definition read_csv :: "(str \<Rightarrow> str) \<Rightarrow> row list option \<Rightarrow> error + str list" where
  "read_csv lower file =
     (case file of
        None \<Rightarrow> Inl (SystemExit 1)
      | Some rows \<Rightarrow>
          (case read_rows lower rows ([], {}) of
             Inl e \<Rightarrow> Inl e
           | Inr (artists, seen) \<Rightarrow> Inr artists))"

definition PLACEHOLDER :: str where
  "PLACEHOLDER = lit ''https://via.placeholder.com/400x400.png?text=Artist''"

definition RATINGS :: "str list" where
  "RATINGS = [[9733, 9733, 9733, 9733, 9733], [9733, 9733, 9733, 9733, 189],
              [9733, 9733, 9733, 9733], [9733, 9733, 9733, 189]]"

record entry =
  name :: str
  url :: str
  region :: str
  image :: str
  rating :: str

text \<open>
  What a run depends on: the case tables, \<^verbatim>\<open>urllib.parse.quote\<close>, the answer of the
  network to the \<open>i\<close>-th lookup, the index \<^verbatim>\<open>random.choice\<close> draws at the \<open>i\<close>-th
  artist, and the input file.
\<close>

record world =
  str_lower :: "str \<Rightarrow> str"
  url_quote :: "str \<Rightarrow> error + str"
  http_json :: "nat \<Rightarrow> str \<Rightarrow> pyval option"
  random_choice :: "nat \<Rightarrow> nat"
  csv_file :: "row list option"

text \<open>The placeholder fallback of \<^verbatim>\<open>main\<close>: the image and the note printed for it.\<close>

definition fallback :: "str \<Rightarrow> str \<times> str" where
  "fallback img = (if img = [] then (PLACEHOLDER, lit ''placeholder'') else (img, lit ''ok''))"

text \<open>One iteration of the loop of \<^verbatim>\<open>main\<close>, for the \<open>i\<close>-th artist.\<close>

definition build_entry :: "world \<Rightarrow> nat \<Rightarrow> str \<Rightarrow> error + entry" where
  "build_entry w i artist =
     (let reg = guess_region (str_lower w) artist;
          rat = RATINGS ! (random_choice w i mod length RATINGS) in
      case ddg_search_image (str_lower w) (url_quote w) (http_json w i) artist of
        Inl e \<Rightarrow> Inl e
      | Inr img0 \<Rightarrow>
          (let img = fst (fallback img0) in
           case url_quote w artist of
             Inl e \<Rightarrow> Inl e
           | Inr q \<Rightarrow>
               Inr \<lparr>name = artist,
                    url = lit ''https://open.spotify.com/search/artist%3A'' @ q,
                    region = reg, image = img, rating = rat\<rparr>))"

fun main_loop :: "world \<Rightarrow> nat \<Rightarrow> str list \<Rightarrow> error + entry list" where
  "main_loop w i [] = Inr []"
| "main_loop w i (artist # artists) =
     (case build_entry w i artist of
        Inl e \<Rightarrow> Inl e
      | Inr en \<Rightarrow>
          (case main_loop w (Suc i) artists of
             Inl e \<Rightarrow> Inl e
           | Inr out \<Rightarrow> Inr (en # out)))"

text \<open>The records \<^verbatim>\<open>main\<close> writes to the output file, or the error that ends the run.\<close>

definition main :: "world \<Rightarrow> error + entry list" where
  "main w =
     (case read_csv (str_lower w) (csv_file w) of
        Inl e \<Rightarrow> Inl e
      | Inr artists \<Rightarrow> main_loop w 1 artists)"

section \<open>Reference notions used by the properties\<close>

text \<open>
  \<^verbatim>\<open>str.lower\<close> on strings whose code points are all below 256 (ASCII and Latin-1
  capitals move up by 32); the concrete runs below use it for the case tables.
\<close>

definition lower_latin1 :: "str \<Rightarrow> str" where
  "lower_latin1 u =
     map (\<lambda>c. if (65 \<le> c \<and> c \<le> 90) \<or> (192 \<le> c \<and> c \<le> 222 \<and> c \<noteq> 215) then c + 32 else c) u"

text \<open>The keyword list \<^verbatim>\<open>REGION_HINTS[reg]\<close>.\<close>

definition region_words :: "str \<Rightarrow> str list" where
  "region_words reg = (case map_of REGION_HINTS reg of Some ws \<Rightarrow> ws | None \<Rightarrow> [])"

text \<open>
  The French accented vowels, in the words of the specification: a-grave, a-circumflex,
  e-acute, e-grave, e-circumflex, e-diaeresis, i-circumflex, i-diaeresis, o-circumflex,
  u-grave, u-circumflex, u-diaeresis, y-diaeresis. The class of the code differs from
  this list: it holds c-cedilla and lacks e-diaeresis, u-circumflex, u-diaeresis and
  y-diaeresis.
\<close>

definition french_accented_vowels :: "codepoint list" where
  "french_accented_vowels = [224, 226, 233, 232, 234, 235, 238, 239, 244, 249, 251, 252, 255]"

definition has_accented_vowel :: "str \<Rightarrow> bool" where
  "has_accented_vowel u \<longleftrightarrow> list_ex (\<lambda>c. c \<in> set french_accented_vowels) u"

text \<open>What \<^verbatim>\<open>normalize_image_url\<close> accepts: an http(s) URL without a query string.\<close>

definition http_url :: "str \<Rightarrow> bool" where
  "http_url r \<longleftrightarrow>
     (startswith r (lit ''http://'') \<or> startswith r (lit ''https://'')) \<and> 63 \<notin> set r"

text \<open>The three column names \<^verbatim>\<open>read_csv\<close> tries, in its order.\<close>

definition candidate_columns :: "str list" where
  "candidate_columns = [lit ''Artist Name(s)'', lit ''artist'', lit ''Artist'']"

text \<open>
  A row without an artist: each candidate column is absent from the row, or its value
  is missing (None) or the empty string.
\<close>

definition no_artist_cell :: "row \<Rightarrow> bool" where
  "no_artist_cell r \<longleftrightarrow>
     list_all (\<lambda>k. map_of r k = None \<or> map_of r k = Some PNone \<or> map_of r k = Some (PStr []))
       candidate_columns"

text \<open>The fragments of a row and of the whole input, in scan order.\<close>

definition row_parts :: "row \<Rightarrow> str list" where
  "row_parts r = (case split_artists (raw_cell r) of Inr ps \<Rightarrow> ps | Inl e \<Rightarrow> [])"

definition all_parts :: "row list \<Rightarrow> str list" where
  "all_parts rows = concat (map row_parts rows)"

text \<open>
  First-seen deduplication by a key, written without a set of seen keys: keep the head,
  drop from the rest everything with the head's key, go on.
\<close>

function first_seen :: "('a \<Rightarrow> 'k) \<Rightarrow> 'a list \<Rightarrow> 'a list" where
  "first_seen key [] = []"
| "first_seen key (x # xs) = x # first_seen key (filter (\<lambda>y. key y \<noteq> key x) xs)"
  by pat_completeness auto
termination
  by (relation "measure (\<lambda>(key, xs). length xs)") (auto simp: less_Suc_eq_le)

text \<open>
  \<^verbatim>\<open>urllib.parse.quote\<close> with its default arguments, for the concrete runs: the
  UTF-8 bytes of every character outside letters, digits and \<^verbatim>\<open>_.-~/\<close> are
  percent-encoded; a surrogate cannot be encoded.
\<close>

fun utf8 :: "codepoint \<Rightarrow> error + nat list" where
  "utf8 c =
     (if c < 128 then Inr [c]
      else if c < 2048 then Inr [192 + c div 64, 128 + c mod 64]
      else if 55296 \<le> c \<and> c < 57344 then Inl UnicodeEncodeError
      else if c < 65536 then Inr [224 + c div 4096, 128 + c div 64 mod 64, 128 + c mod 64]
      else Inr [240 + c div 262144, 128 + c div 4096 mod 64, 128 + c div 64 mod 64,
                128 + c mod 64])"

definition hex_digit :: "nat \<Rightarrow> codepoint" where
  "hex_digit n = lit ''0123456789ABCDEF'' ! n"

definition unreserved :: "codepoint \<Rightarrow> bool" where
  "unreserved c \<longleftrightarrow>
     (48 \<le> c \<and> c \<le> 57) \<or> (65 \<le> c \<and> c \<le> 90) \<or> (97 \<le> c \<and> c \<le> 122) \<or>
     c \<in> set (lit ''_.-~/'')"

fun quote :: "str \<Rightarrow> error + str" where
  "quote [] = Inr []"
| "quote (c # cs) =
     (case utf8 c of
        Inl e \<Rightarrow> Inl e
      | Inr bs \<Rightarrow>
          (case quote cs of
             Inl e \<Rightarrow> Inl e
           | Inr r \<Rightarrow>
               Inr ((if unreserved c then [c]
                     else concat (map (\<lambda>b. [37, hex_digit (b div 16), hex_digit (b mod 16)]) bs))
                    @ r)))"

text \<open>
  A concrete run: three rows, the second without an artist column; the first lookup
  fails, every later one answers with a site-relative image.
\<close>

definition demo_rows :: "row list" where
  "demo_rows =
     [[(lit ''Artist Name(s)'', PStr (lit ''PNL, pnl''))],
      [(lit ''Track'', PStr (lit ''x''))],
      [(lit ''Artist Name(s)'', PStr (lit ''Jul & Pnl''))]]"

definition demo_world :: world where
  "demo_world =
     \<lparr>str_lower = lower_latin1, url_quote = quote,
      http_json = (\<lambda>i u. if i = 1 then None
         else Some (PDict [(lit ''Image'', PStr (lit ''/i/jul.png''))])),
      random_choice = (\<lambda>i. i), csv_file = Some demo_rows\<rparr>"

definition demo_out :: "entry list" where
  "demo_out =
     [\<lparr>name = lit ''PNL'', url = lit ''https://open.spotify.com/search/artist%3APNL'',
       region = lit ''fr'', image = PLACEHOLDER, rating = [9733, 9733, 9733, 9733, 189]\<rparr>,
      \<lparr>name = lit ''Jul'', url = lit ''https://open.spotify.com/search/artist%3AJul'',
       region = lit ''fr'', image = lit ''https://duckduckgo.com/i/jul.png'',
       rating = [9733, 9733, 9733, 9733]\<rparr>]"

text \<open>Two readings of "non-empty" for a URL string: as it stands, and after \<^verbatim>\<open>strip()\<close>.\<close>

definition nonempty :: "str \<Rightarrow> bool" where
  "nonempty u \<longleftrightarrow> u \<noteq> []"

definition nonblank :: "str \<Rightarrow> bool" where
  "nonblank u \<longleftrightarrow> strip u \<noteq> []"

text \<open>The value \<^verbatim>\<open>icon.get("URL") or icon.get("url")\<close> of a dict, when its icon is a dict.\<close>

definition icon_value :: "(str \<times> pyval) list \<Rightarrow> pyval option" where
  "icon_value d =
     (case py_or (get d (lit ''Icon'')) (PDict []) of
        PDict icon \<Rightarrow> Some (py_or (get icon (lit ''URL'')) (get icon (lit ''url'')))
      | _ \<Rightarrow> None)"

text \<open>A dict is quiet when it has no icon URL, or a blank one.\<close>

definition icon_quiet :: "(str \<times> pyval) list \<Rightarrow> bool" where
  "icon_quiet d \<longleftrightarrow>
     (case icon_value d of
        Some (PStr u) \<Rightarrow> strip u = []
      | Some v \<Rightarrow> \<not> truthy v
      | None \<Rightarrow> False)"

definition sub_quiet :: "pyval \<Rightarrow> bool" where
  "sub_quiet sub \<longleftrightarrow> (case sub of PDict d \<Rightarrow> icon_quiet d | _ \<Rightarrow> True)"

definition item_quiet :: "pyval \<Rightarrow> bool" where
  "item_quiet item \<longleftrightarrow>
     (case item of
        PDict d \<Rightarrow>
          icon_quiet d \<and>
          (case get d (lit ''Topics'') of PList subs \<Rightarrow> list_all sub_quiet subs | _ \<Rightarrow> True)
      | _ \<Rightarrow> True)"

text \<open>A response in which no image field is found.\<close>

definition no_image_found :: "(str \<times> pyval) list \<Rightarrow> bool" where
  "no_image_found d \<longleftrightarrow>
     \<not> truthy (py_or (get d (lit ''Image'')) (get d (lit ''image''))) \<and>
     (case py_or (get d (lit ''RelatedTopics'')) (PList []) of
        PList items \<Rightarrow> list_all item_quiet items
      | _ \<Rightarrow> True) \<and>
     \<not> truthy (get d (lit ''AbstractImage''))"

text \<open>
  The candidates of the priority order, as lists: the top-level image, the icon carried
  by a dict, the icons of an entry of the related topics (its own, then those of its
  nested topics, in list order), and the abstract image.
\<close>

definition icon_of :: "pyval \<Rightarrow> str list" where
  "icon_of v =
     (case v of
        PDict d \<Rightarrow> (case icon_value d of Some (PStr u) \<Rightarrow> [u] | _ \<Rightarrow> [])
      | _ \<Rightarrow> [])"

definition entry_icons :: "pyval \<Rightarrow> str list" where
  "entry_icons item =
     icon_of item @
     (case item of
        PDict d \<Rightarrow> (case get d (lit ''Topics'') of PList subs \<Rightarrow> concat (map icon_of subs) | _ \<Rightarrow> [])
      | _ \<Rightarrow> [])"

definition related_icons :: "(str \<times> pyval) list \<Rightarrow> str list" where
  "related_icons d =
     (case get d (lit ''RelatedTopics'') of
        PList items \<Rightarrow> concat (map entry_icons items)
      | _ \<Rightarrow> [])"

definition top_image :: "(str \<times> pyval) list \<Rightarrow> str list" where
  "top_image d =
     (case py_or (get d (lit ''Image'')) (get d (lit ''image'')) of PStr u \<Rightarrow> [u] | _ \<Rightarrow> [])"

definition abstract_image :: "(str \<times> pyval) list \<Rightarrow> str" where
  "abstract_image d = (case get d (lit ''AbstractImage'') of PStr u \<Rightarrow> u | _ \<Rightarrow> [])"

definition candidate :: "(str \<Rightarrow> bool) \<Rightarrow> (str \<times> pyval) list \<Rightarrow> str" where
  "candidate ok d =
     (case find ok (top_image d @ related_icons d) of
        Some u \<Rightarrow> u
      | None \<Rightarrow> abstract_image d)"

text \<open>
  The result of a scan agrees with a list of icon URLs when, unless it raises, it is the
  normalized first non-blank URL of the list, or nothing when the list has none.
\<close>

definition agrees :: "(str \<Rightarrow> str) \<Rightarrow> error + str option \<Rightarrow> str list \<Rightarrow> bool" where
  "agrees lower res icons \<longleftrightarrow>
     (case res of
        Inl e \<Rightarrow> True
      | Inr None \<Rightarrow> find nonblank icons = None
      | Inr (Some r) \<Rightarrow> (\<exists>u. find nonblank icons = Some u \<and> r = normalize_image_url lower u))"

text \<open>
  Well-shaped values: an icon is a dict (or false) and its URL a string (or false), so
  that no method is called on a value that lacks it.
\<close>

definition icon_shaped :: "(str \<times> pyval) list \<Rightarrow> bool" where
  "icon_shaped d \<longleftrightarrow>
     (case icon_value d of
        Some (PStr u) \<Rightarrow> True
      | Some v \<Rightarrow> \<not> truthy v
      | None \<Rightarrow> False)"

definition sub_shaped :: "pyval \<Rightarrow> bool" where
  "sub_shaped sub \<longleftrightarrow> (case sub of PDict d \<Rightarrow> icon_shaped d | _ \<Rightarrow> True)"

definition item_shaped :: "pyval \<Rightarrow> bool" where
  "item_shaped item \<longleftrightarrow>
     (case item of
        PDict d \<Rightarrow>
          icon_shaped d \<and>
          (case get d (lit ''Topics'') of PList subs \<Rightarrow> list_all sub_shaped subs | _ \<Rightarrow> True)
      | _ \<Rightarrow> True)"

definition body_shaped :: "(str \<times> pyval) list \<Rightarrow> bool" where
  "body_shaped d \<longleftrightarrow>
     (case py_or (get d (lit ''RelatedTopics'')) (PList []) of
        PList items \<Rightarrow> list_all item_shaped items
      | _ \<Rightarrow> True) \<and>
     (case get d (lit ''AbstractImage'') of PStr u \<Rightarrow> True | v \<Rightarrow> \<not> truthy v)"

text \<open>Concrete response bodies and related-topics lists.\<close>

definition blank_icon_body :: "(str \<times> pyval) list" where
  "blank_icon_body =
     [(lit ''RelatedTopics'',
         PList [PDict [(lit ''Icon'', PDict [(lit ''URL'', PStr (lit '' ''))])]]),
      (lit ''AbstractImage'', PStr (lit ''https://a.b/c.png''))]"

definition blank_item :: pyval where
  "blank_item = PDict [(lit ''Icon'', PDict [(lit ''URL'', PStr (lit '' ''))])]"

definition valid_item :: pyval where
  "valid_item = PDict [(lit ''Icon'', PDict [(lit ''URL'', PStr (lit ''https://a.b/c.png''))])]"

definition rejected_icon :: "(str \<times> pyval) list" where
  "rejected_icon = [(lit ''Icon'', PDict [(lit ''URL'', PStr (lit ''ftp://a.b/c.png''))])]"

definition blank_first :: "pyval list" where
  "blank_first = [blank_item, valid_item]"

definition rejected_first :: "pyval list" where
  "rejected_first = [PDict rejected_icon, valid_item]"

definition nested_body :: "(str \<times> pyval) list" where
  "nested_body =
     [(lit ''Image'', PStr []),
      (lit ''RelatedTopics'',
         PList [PDict [(lit ''Icon'', PDict [(lit ''URL'', PStr [])])],
                PDict [(lit ''Name'', PStr (lit ''Rappers'')),
                       (lit ''Topics'',
                          PList [PDict [(lit ''Icon'', PDict [(lit ''URL'', PStr (lit ''/i/a.jpg?f=1''))])]])]]),
      (lit ''AbstractImage'', PStr (lit ''https://a.b/c.png''))]"

definition empty_body :: "(str \<times> pyval) list" where
  "empty_body =
     [(lit ''Image'', PStr []),
      (lit ''RelatedTopics'', PList [PDict [(lit ''Icon'', PDict [(lit ''URL'', PStr [])])]]),
      (lit ''AbstractImage'', PStr [])]"

text \<open>
  A raw cell value laid out as fragments and separators: \<open>is_sep s\<close> says that \<open>s\<close> is
  exactly one match of the separator pattern, \<open>sep_free f t\<close> that no match of the
  pattern starts inside \<open>f\<close> when \<open>t\<close> follows it, \<open>join_cell\<close> writes the fragments
  and separators one after the other, and a layout is well formed when every fragment
  is free of separators and non-empty after cleaning.
\<close>

fun sep_free :: "str \<Rightarrow> str \<Rightarrow> bool" where
  "sep_free [] t = True"
| "sep_free (c # cs) t = (match_sep (c # cs @ t) = None \<and> sep_free cs t)"

definition is_sep :: "str \<Rightarrow> bool" where
  "is_sep s \<longleftrightarrow> match_sep s = Some []"

fun join_cell :: "str \<Rightarrow> (str \<times> str) list \<Rightarrow> str" where
  "join_cell f [] = f"
| "join_cell f ((s, g) # rest) = f @ s @ join_cell g rest"

fun well_formed :: "str \<Rightarrow> (str \<times> str) list \<Rightarrow> bool" where
  "well_formed f [] = (sep_free f [] \<and> clean_name f \<noteq> [])"
| "well_formed f ((s, g) # rest) =
     (sep_free f (s @ join_cell g rest) \<and> clean_name f \<noteq> [] \<and> is_sep s \<and> well_formed g rest)"

text \<open>
  The separators in the words of the specification: one of the characters
  \<^verbatim>\<open>; , / &\<close>, or one of the words \<^verbatim>\<open>feat.\<close> (after a space), \<^verbatim>\<open>ft.\<close> and
  \<^verbatim>\<open>and\<close> (between spaces) in any casing.
\<close>

definition is_separator :: "str \<Rightarrow> bool" where
  "is_separator s \<longleftrightarrow>
     s \<in> set (map lit ['';'', '','', ''/'', ''&'']) \<or>
     list_ex (\<lambda>w. list_all2 ci_char w s) (map lit ['' feat.'', '' ft. '', '' and ''])"

definition demo_cell :: "str \<times> (str \<times> str) list" where
  "demo_cell = (lit ''Drake'', [(lit '' FEAT.'', lit '' Dave ''), (lit ''&'', lit '' drake'')])"

text \<open>
  Searching a string for the patterns of the Name Normalizer (\<^verbatim>\<open>re.search\<close>):
  \<open>has_feat\<close> for the feat parenthetical, \<open>has_bracket\<close> for the bracket pattern.
  \<open>bracketed\<close> is the plain reading of a bracketed substring: an opening bracket with a
  closing bracket somewhere after it. \<open>stripped\<close> says that a string neither starts nor
  ends with white space. \<open>plain_heads\<close> says that no opening parenthesis is followed,
  within the next four characters, by another opening parenthesis or an opening bracket.
\<close>

fun has_feat :: "str \<Rightarrow> bool" where
  "has_feat [] = False"
| "has_feat (c # cs) = (match_feat (c # cs) \<noteq> None \<or> has_feat cs)"

fun has_bracket :: "str \<Rightarrow> bool" where
  "has_bracket [] = False"
| "has_bracket (c # cs) = (match_bracket (c # cs) \<noteq> None \<or> has_bracket cs)"

definition bracketed :: "str \<Rightarrow> bool" where
  "bracketed u \<longleftrightarrow> (case dropWhile (\<lambda>c. c \<noteq> 91) u of [] \<Rightarrow> False | _ # r \<Rightarrow> 93 \<in> set r)"

definition stripped :: "str \<Rightarrow> bool" where
  "stripped u \<longleftrightarrow> u = [] \<or> (\<not> isspace (hd u) \<and> \<not> isspace (last u))"

fun plain_heads :: "str \<Rightarrow> bool" where
  "plain_heads [] = True"
| "plain_heads (c # cs) =
     ((c = 40 \<longrightarrow> list_all (\<lambda>d. d \<noteq> 40 \<and> d \<noteq> 91) (take 4 cs)) \<and> plain_heads cs)"

section \<open>Strings: basic facts\<close>

lemma startswith_Cons: "startswith u (p # ps) \<longleftrightarrow> (\<exists>us. u = p # us \<and> startswith us ps)"
  by (cases u) (auto simp: startswith_def)

lemma startswith_Nil: "startswith u []"
  by (simp add: startswith_def)

lemma take_prefix_iff: "take (length w) u = w \<longleftrightarrow> prefix w u"
  by (metis append_eq_conv_conj prefix_def take_is_prefix)

lemma str_in_sublist: "str_in w n \<longleftrightarrow> sublist w n"
  by (induction n) (auto simp: sublist_Cons_right take_prefix_iff simp del: take_Suc_Cons)

lemma list_ex_str_in: "list_ex (\<lambda>w. str_in w n) ws \<longleftrightarrow> (\<exists>w\<in>set ws. sublist w n)"
  by (simp add: list_ex_iff str_in_sublist)

section \<open>Region Classifier: properties\<close>

lemma region_tags_distinct:
  "lit ''fr'' \<noteq> lit ''uk''" "lit ''fr'' \<noteq> lit ''us''" "lit ''uk'' \<noteq> lit ''us''"
  "lit ''uk'' \<noteq> lit ''fr''" "lit ''us'' \<noteq> lit ''fr''" "lit ''us'' \<noteq> lit ''uk''"
  by (simp_all add: lit_def)

lemma hints_by_region:
  "REGION_HINTS =
     [(lit ''fr'', region_words (lit ''fr'')), (lit ''uk'', region_words (lit ''uk'')),
      (lit ''us'', region_words (lit ''us''))]"
  unfolding region_words_def REGION_HINTS_def by (simp add: region_tags_distinct)

text \<open>
  Claim C3, amended. The classifier lower-cases the name and checks the regions in the
  order fr, uk, us for a keyword of the region occurring in the lower-cased name as a
  substring; the first region with a match is the result. With no match the result is
  fr exactly when the lower-cased name holds one of the ten characters of the class of
  the code (e-acute, e-grave, a-grave, u-grave, c-cedilla, i-circumflex, i-diaeresis,
  o-circumflex, e-circumflex, a-circumflex), and other otherwise.
\<close>

theorem guess_region_priority:
  "guess_region lower nm =
     (let n = lower nm in
      if \<exists>w\<in>set (region_words (lit ''fr'')). sublist w n then lit ''fr''
      else if \<exists>w\<in>set (region_words (lit ''uk'')). sublist w n then lit ''uk''
      else if \<exists>w\<in>set (region_words (lit ''us'')). sublist w n then lit ''us''
      else if \<exists>c\<in>set n. c \<in> set accented then lit ''fr''
      else lit ''other'')"
  unfolding guess_region_def
  by (subst hints_by_region) (simp add: Let_def list_ex_str_in list_ex_iff)

text \<open>
  "Dave feat. Drake" holds a uk and a us keyword and is uk; a name ending in a capital
  e-acute is fr; "Adele" is other.
\<close>

theorem guess_region_priority_witness:
  "guess_region lower_latin1 (lit ''Dave feat. Drake'') = lit ''uk'' \<and>
   guess_region lower_latin1 [66, 101, 121, 111, 110, 99, 201] = lit ''fr'' \<and>
   guess_region lower_latin1 (lit ''Adele'') = lit ''other''"
  using guess_region_priority [of lower_latin1 "lit ''Dave feat. Drake''"]
    guess_region_priority [of lower_latin1 "[66, 101, 121, 111, 110, 99, 201]"]
    guess_region_priority [of lower_latin1 "lit ''Adele''"]
  by code_simp

text \<open>
  The claim as stated fails, since the class of the code is not the set of the French
  accented vowels: the name S, u-circumflex, r holds an accented vowel, matches no
  keyword and is classified other; the name C-cedilla, a holds no accented vowel,
  matches no keyword and is classified fr.
\<close>

theorem guess_region_vowel_counterexample:
  "has_accented_vowel (lower_latin1 [83, 251, 114]) \<and>
   region_loop REGION_HINTS (lower_latin1 [83, 251, 114]) = None \<and>
   guess_region lower_latin1 [83, 251, 114] = lit ''other'' \<and>
   \<not> has_accented_vowel (lower_latin1 [199, 97]) \<and>
   region_loop REGION_HINTS (lower_latin1 [199, 97]) = None \<and>
   guess_region lower_latin1 [199, 97] = lit ''fr''"
  by (simp add: has_accented_vowel_def french_accented_vowels_def guess_region_def
      REGION_HINTS_def accented_def lower_latin1_def lit_def)

section \<open>URL normalization: properties\<close>

lemma normalize_plain:
  "normalize_image_url lower u =
     (if u = [] then []
      else
        let u1 = takeWhile (\<lambda>c. c \<noteq> 63) u;
            u2 = (if startswith u1 (lit ''//'') then lit ''https:'' @ u1 else u1);
            u3 = (if startswith u2 (lit ''/'') then lit ''https://duckduckgo.com'' @ u2 else u2)
        in if startswith u3 (lit ''http://'') \<or> startswith u3 (lit ''https://'') then u3 else [])"
  by (simp add: normalize_image_url_def Let_def)

lemma normalize_fixed: "http_url r \<Longrightarrow> normalize_image_url lower r = r"
  unfolding http_url_def normalize_plain
  by (auto simp: lit_def startswith_Cons startswith_Nil Let_def takeWhile_eq_all_conv)

lemma no_query_takeWhile: "63 \<notin> set (takeWhile (\<lambda>c. c \<noteq> (63::nat)) u)"
  by (auto dest: set_takeWhileD)

lemma normalize_result:
  "normalize_image_url lower u = [] \<or> http_url (normalize_image_url lower u)"
  unfolding http_url_def normalize_plain
  by (auto simp: Let_def lit_def no_query_takeWhile)

text \<open>
  Claim C7. URL normalization is idempotent: normalizing a normalized URL changes
  nothing, for every input string and whatever the case tables are.
\<close>

theorem normalize_image_url_idempotent:
  "normalize_image_url lower (normalize_image_url lower u) = normalize_image_url lower u"
  using normalize_result [of lower u] normalize_fixed [of "normalize_image_url lower u" lower]
  by (auto simp: normalize_plain)

text \<open>A protocol-relative URL with a query string, normalized once and twice.\<close>

theorem normalize_image_url_idempotent_witness:
  "normalize_image_url lower_latin1 (lit ''//a.b/c.PNG?x=1'') = lit ''https://a.b/c.PNG'' \<and>
   normalize_image_url lower_latin1 (normalize_image_url lower_latin1 (lit ''//a.b/c.PNG?x=1''))
     = lit ''https://a.b/c.PNG''"
  using normalize_image_url_idempotent [of lower_latin1 "lit ''//a.b/c.PNG?x=1''"]
  by code_simp

section \<open>Splitter: properties\<close>

text \<open>
  Claim C9. On a raw cell value that is false in Python (the empty string, None, zero,
  an empty container) the Splitter returns the empty list and raises nothing, and a row
  whose raw value is false leaves the list of artists as it was.
\<close>

theorem split_artists_falsy:
  "\<not> truthy raw \<Longrightarrow>
     split_artists raw = Inr [] \<and>
     (raw_cell r = raw \<longrightarrow> read_rows lower (r # rs) st = read_rows lower rs st)"
  by (cases st) (auto simp: split_artists_def)

theorem split_artists_falsy_witness:
  "split_artists (PStr []) = Inr [] \<and> split_artists PNone = Inr [] \<and>
   split_artists (PInt 0) = Inr [] \<and> split_artists (PList []) = Inr []"
  using split_artists_falsy [of "PStr []"] split_artists_falsy [of PNone]
    split_artists_falsy [of "PInt 0"] split_artists_falsy [of "PList []"]
  by simp

section \<open>Catalog Builder: properties\<close>

lemma read_rows_append:
  "read_rows lower (xs @ ys) st =
     (case read_rows lower xs st of Inl e \<Rightarrow> Inl e | Inr st' \<Rightarrow> read_rows lower ys st')"
  by (induction xs arbitrary: st) (auto split: sum.splits)

lemma no_artist_cell_raw: "no_artist_cell r \<Longrightarrow> raw_cell r = PStr []"
  by (auto simp: no_artist_cell_def candidate_columns_def raw_cell_def get_def py_or_def)

lemma first_seen_filter:
  "first_seen key (filter (\<lambda>y. key y \<notin> S) xs) = filter (\<lambda>y. key y \<notin> S) (first_seen key xs)"
proof (induction key xs rule: first_seen.induct)
  case (1 key)
  then show ?case by simp
next
  case (2 key x xs)
  have comm: "filter (\<lambda>y. key y \<noteq> key x) (filter (\<lambda>y. key y \<notin> S) xs)
              = filter (\<lambda>y. key y \<notin> S) (filter (\<lambda>y. key y \<noteq> key x) xs)"
    by (auto intro: filter_cong)
  have ins: "filter (\<lambda>y. key y \<notin> S) xs = filter (\<lambda>y. key y \<notin> S) (filter (\<lambda>y. key y \<noteq> key x) xs)" if "key x \<in> S"
    using that by (auto intro: filter_cong)
  show ?case
  proof (cases "key x \<in> S")
    case True
    then show ?thesis using 2 ins by simp
  next
    case False
    then show ?thesis using 2 comm by simp
  qed
qed

lemma add_parts_first_seen:
  "add_parts lower ps (artists, seen) =
     (artists @ first_seen lower (filter (\<lambda>p. lower p \<notin> seen) ps), seen \<union> lower ` set ps)"
proof (induction ps arbitrary: artists seen)
  case Nil
  then show ?case by simp
next
  case (Cons p ps)
  have "filter (\<lambda>q. lower q \<notin> insert (lower p) seen) ps
        = filter (\<lambda>y. lower y \<noteq> lower p) (filter (\<lambda>q. lower q \<notin> seen) ps)"
    by (auto intro: filter_cong)
  then show ?case using Cons by (auto simp: Let_def)
qed

lemma first_seen_append:
  "first_seen key (xs @ ys) = first_seen key xs @ first_seen key (filter (\<lambda>y. key y \<notin> key ` set xs) ys)"
proof (induction key xs arbitrary: ys rule: first_seen.induct)
  case (1 key)
  then show ?case by simp
next
  case (2 key x xs)
  let ?P = "\<lambda>y. key y \<noteq> key x"
  have flt: "filter (\<lambda>y. key y \<notin> key ` set (filter ?P xs)) (filter ?P ys)
             = filter (\<lambda>y. key y \<notin> key ` set (x # xs)) ys"
    unfolding filter_filter by (rule filter_cong) auto
  have "first_seen key ((x # xs) @ ys) = x # first_seen key (filter ?P xs @ filter ?P ys)"
    by simp
  also have "\<dots> = x # first_seen key (filter ?P xs)
                     @ first_seen key (filter (\<lambda>y. key y \<notin> key ` set (filter ?P xs)) (filter ?P ys))"
    using 2 [of "filter ?P ys"] by simp
  also have "\<dots> = first_seen key (x # xs) @ first_seen key (filter (\<lambda>y. key y \<notin> key ` set (x # xs)) ys)"
    unfolding flt by simp
  finally show ?case .
qed

lemma read_rows_first_seen:
  "read_rows lower rows (artists, seen) = Inr (artists', seen') \<Longrightarrow>
     artists' = artists @ first_seen lower (filter (\<lambda>p. lower p \<notin> seen) (all_parts rows))"
proof (induction rows arbitrary: artists seen)
  case Nil
  then show ?case by (simp add: all_parts_def)
next
  case (Cons r rows)
  from Cons.prems obtain ps where ps: "split_artists (raw_cell r) = Inr ps"
    and rest: "read_rows lower rows (add_parts lower ps (artists, seen)) = Inr (artists', seen')"
    by (auto split: sum.splits)
  have rp: "row_parts r = ps" using ps by (simp add: row_parts_def)
  have "artists' = (artists @ first_seen lower (filter (\<lambda>p. lower p \<notin> seen) ps))
           @ first_seen lower (filter (\<lambda>p. lower p \<notin> seen \<union> lower ` set ps) (all_parts rows))"
    using Cons.IH rest unfolding add_parts_first_seen by blast
  moreover have "first_seen lower (filter (\<lambda>p. lower p \<notin> seen) (all_parts (r # rows)))
      = first_seen lower (filter (\<lambda>p. lower p \<notin> seen) ps) @
        first_seen lower (filter (\<lambda>p. lower p \<notin> seen \<union> lower ` set ps) (all_parts rows))"
  proof -
    have "filter (\<lambda>y. lower y \<notin> lower ` set (filter (\<lambda>p. lower p \<notin> seen) ps)) (filter (\<lambda>p. lower p \<notin> seen) (all_parts rows))
         = filter (\<lambda>p. lower p \<notin> seen \<union> lower ` set ps) (all_parts rows)"
      by (auto intro!: filter_cong)
    then show ?thesis
      by (simp add: all_parts_def rp first_seen_append)
  qed
  ultimately show ?case by simp
qed

lemma read_csv_first_seen:
  "read_csv lower (Some rows) = Inr artists \<Longrightarrow> artists = first_seen lower (all_parts rows)"
  by (auto simp: read_csv_def split: sum.splits dest: read_rows_first_seen)

lemma first_seen_snoc:
  "first_seen key (xs @ [x]) = first_seen key xs @ (if key x \<in> key ` set xs then [] else [x])"
  by (simp add: first_seen_append)

lemma nths_eq_on:
  "(\<And>i. i < length xs \<Longrightarrow> i \<in> A \<longleftrightarrow> i \<in> B) \<Longrightarrow> nths xs A = nths xs B"
  unfolding nths_def
  by (rule arg_cong [where f = "map fst"], rule filter_cong) (auto dest: set_zip_rightD)

lemma first_seen_nths:
  "first_seen key xs = nths xs {i. \<forall>j<i. key (xs ! j) \<noteq> key (xs ! i)}"
proof (induction xs rule: rev_induct)
  case Nil
  then show ?case by simp
next
  case (snoc x xs)
  have a: "nths xs {i. \<forall>j<i. key ((xs @ [x]) ! j) \<noteq> key ((xs @ [x]) ! i)}
         = nths xs {i. \<forall>j<i. key (xs ! j) \<noteq> key (xs ! i)}"
    by (rule nths_eq_on) (auto simp: nth_append)
  have b: "(\<forall>j<length xs. key ((xs @ [x]) ! j) \<noteq> key x) \<longleftrightarrow> key x \<notin> key ` set xs"
  proof -
    have "(\<forall>j<length xs. key ((xs @ [x]) ! j) \<noteq> key x) \<longleftrightarrow> (\<forall>j<length xs. key (xs ! j) \<noteq> key x)"
      by (simp add: nth_append)
    also have "\<dots> \<longleftrightarrow> (\<forall>y\<in>set xs. key y \<noteq> key x)"
      by (metis in_set_conv_nth)
    also have "\<dots> \<longleftrightarrow> key x \<notin> key ` set xs"
      by (metis image_iff)
    finally show ?thesis .
  qed
  show ?case
    unfolding first_seen_snoc nths_append a snoc.IH
    using b by (auto simp: nths_singleton nth_append)
qed

lemma first_seen_set: "key ` set (first_seen key xs) = key ` set xs"
  by (induction xs rule: rev_induct) (auto simp: first_seen_snoc)

lemma first_seen_subset: "set (first_seen key xs) \<subseteq> set xs"
  by (induction xs rule: rev_induct) (auto simp: first_seen_snoc)

lemma first_seen_distinct: "distinct (map key (first_seen key xs))"
  by (induction xs rule: rev_induct) (auto simp: first_seen_snoc first_seen_set)

lemma first_seen_find:
  "x \<in> set (first_seen key xs) \<Longrightarrow> find (\<lambda>y. key y = key x) xs = Some x"
proof (induction key xs rule: first_seen.induct)
  case (1 key)
  then show ?case by simp
next
  case (2 key y ys)
  show ?case
  proof (cases "x = y")
    case True
    then show ?thesis by simp
  next
    case False
    then have "x \<in> set (first_seen key (filter (\<lambda>z. key z \<noteq> key y) ys))" using 2 by simp
    then have f: "find (\<lambda>z. key z = key x) (filter (\<lambda>z. key z \<noteq> key y) ys) = Some x"
      and "x \<in> set (filter (\<lambda>z. key z \<noteq> key y) ys)"
      using 2 first_seen_subset by fastforce+
    then have ne: "key y \<noteq> key x" by auto
    have "find (\<lambda>z. key z = key x) (filter (\<lambda>z. key z \<noteq> key y) ys) = find (\<lambda>z. key z = key x) ys"
      using ne by (induction ys) auto
    then show ?thesis using f ne by simp
  qed
qed


lemma main_loop_names: "main_loop w i artists = Inr out \<Longrightarrow> map name out = artists"
proof (induction artists arbitrary: i out)
  case Nil
  then show ?case by simp
next
  case (Cons a artists)
  then show ?case
    by (auto simp: build_entry_def Let_def split: sum.splits)
qed

lemma PLACEHOLDER_nonempty: "PLACEHOLDER \<noteq> []"
  by (simp add: PLACEHOLDER_def lit_def)

lemma fallback_nonempty: "fst (fallback img) \<noteq> []"
  by (simp add: fallback_def PLACEHOLDER_nonempty)

lemma build_entry_image:
  "build_entry w i artist = Inr en \<Longrightarrow>
     image en \<noteq> [] \<and>
     (ddg_search_image (str_lower w) (url_quote w) (http_json w i) artist = Inr [] \<longrightarrow> image en = PLACEHOLDER)"
  by (auto simp: build_entry_def Let_def fallback_def PLACEHOLDER_nonempty split: sum.splits if_splits)

lemma main_loop_images: "main_loop w i artists = Inr out \<Longrightarrow> en \<in> set out \<Longrightarrow> image en \<noteq> []"
proof (induction artists arbitrary: i out)
  case Nil
  then show ?case by simp
next
  case (Cons a artists)
  from Cons.prems(1) obtain e es where b: "build_entry w i a = Inr e"
    and l: "main_loop w (Suc i) artists = Inr es" and o: "out = e # es"
    by (auto split: sum.splits)
  show ?case
  proof (cases "en = e")
    case True
    then show ?thesis using build_entry_image [OF b] by simp
  next
    case False
    then have "en \<in> set es" using Cons.prems(2) o by simp
    then show ?thesis using Cons.IH [OF l] by simp
  qed
qed

text \<open>
  Claim C10. A row in which each of the three candidate columns is absent or holds a
  missing or empty value gives the empty string as raw value; the Splitter returns no
  part for it and raises nothing, the row leaves the state of the reader unchanged, and
  the result of reading the file is the same as without the row.
\<close>

theorem read_csv_row_without_artist:
  "no_artist_cell r \<Longrightarrow>
     raw_cell r = PStr [] \<and> split_artists (raw_cell r) = Inr [] \<and>
     read_rows lower (r # rs) st = read_rows lower rs st \<and>
     read_csv lower (Some (pre @ r # post)) = read_csv lower (Some (pre @ post))"
  by (cases st) (auto simp: no_artist_cell_raw split_artists_def read_csv_def read_rows_append split: sum.splits)

theorem read_csv_row_without_artist_witness:
  "no_artist_cell [(lit ''Track'', PStr (lit ''x''))] \<and>
   no_artist_cell [(lit ''artist'', PNone), (lit ''Artist'', PStr [])] \<and>
   raw_cell [(lit ''artist'', PNone), (lit ''Artist'', PStr [])] = PStr [] \<and>
   read_csv lower_latin1 (Some demo_rows) = read_csv lower_latin1 (Some [demo_rows ! 0, demo_rows ! 2])"
proof -
  have a: "no_artist_cell [(lit ''Track'', PStr (lit ''x''))]"
    and b: "no_artist_cell [(lit ''artist'', PNone), (lit ''Artist'', PStr [])]"
    by (simp_all add: no_artist_cell_def candidate_columns_def lit_def)
  have "demo_rows = [demo_rows ! 0] @ [(lit ''Track'', PStr (lit ''x''))] # [demo_rows ! 2]"
    by (simp add: demo_rows_def)
  with read_csv_row_without_artist [OF a, of lower_latin1 "[]" "([], {})" "[demo_rows ! 0]" "[demo_rows ! 2]"]
  have "read_csv lower_latin1 (Some demo_rows) = read_csv lower_latin1 (Some [demo_rows ! 0, demo_rows ! 2])"
    by simp
  with a b read_csv_row_without_artist [OF b, of lower_latin1 "[]" "([], {})" "[]" "[]"]
  show ?thesis by simp
qed

text \<open>
  Claim C1. When a run writes its records, their names are the fragments of the input
  at the positions whose lower-cased name occurs at no earlier position, in the order
  of the scan: the lower-cased names of the records are pairwise distinct, every
  fragment is represented by a record with the same lower-cased name, and the name of
  a record is the first fragment of the scan with that lower-cased name, in its
  original casing.
\<close>

theorem output_names_first_seen:
  assumes "main w = Inr out"
  shows "\<exists>rows. csv_file w = Some rows \<and>
     map name out = nths (all_parts rows)
        {i. \<forall>j<i. str_lower w (all_parts rows ! j) \<noteq> str_lower w (all_parts rows ! i)} \<and>
     distinct (map (str_lower w) (map name out)) \<and>
     str_lower w ` set (map name out) = str_lower w ` set (all_parts rows) \<and>
     (\<forall>en\<in>set out. find (\<lambda>p. str_lower w p = str_lower w (name en)) (all_parts rows) = Some (name en))"
proof -
  from assms obtain rows artists where f: "csv_file w = Some rows"
    and r: "read_csv (str_lower w) (Some rows) = Inr artists"
    and m: "main_loop w 1 artists = Inr out"
    by (auto simp: main_def read_csv_def split: sum.splits option.splits)
  have n: "map name out = first_seen (str_lower w) (all_parts rows)"
    using main_loop_names [OF m] read_csv_first_seen [OF r] by simp
  have "\<forall>en\<in>set out. find (\<lambda>p. str_lower w p = str_lower w (name en)) (all_parts rows) = Some (name en)"
  proof
    fix en assume "en \<in> set out"
    then have "name en \<in> set (first_seen (str_lower w) (all_parts rows))"
      using n by (metis image_eqI set_map)
    then show "find (\<lambda>p. str_lower w p = str_lower w (name en)) (all_parts rows) = Some (name en)"
      by (rule first_seen_find)
  qed
  then show ?thesis
    using f n first_seen_nths [of "str_lower w" "all_parts rows"]
      first_seen_distinct [of "str_lower w" "all_parts rows"]
      first_seen_set [of "str_lower w" "all_parts rows"]
    by simp
qed

text \<open>
  The run on \<open>demo_rows\<close>: the fragments PNL, pnl, Jul, Pnl give the records PNL and
  Jul.
\<close>

lemmas split_defs = raw_cell_def get_def py_or_def split_artists_def match_sep_def lit_def
  clean_name_def strip_def isspace_def match_feat_def match_bracket_def ci_char_def

lemma demo_parts: "all_parts demo_rows = [lit ''PNL'', lit ''pnl'', lit ''Jul'', lit ''Pnl'']"
  by (simp add: all_parts_def row_parts_def demo_rows_def split_defs)

lemma demo_read: "read_csv lower_latin1 (Some demo_rows) = Inr [lit ''PNL'', lit ''Jul'']"
  by (simp add: read_csv_def demo_rows_def split_defs lower_latin1_def)

lemma demo_region:
  "guess_region lower_latin1 (lit ''PNL'') = lit ''fr''"
  "guess_region lower_latin1 (lit ''Jul'') = lit ''fr''"
  by (simp_all add: guess_region_def REGION_HINTS_def lower_latin1_def lit_def)

lemma demo_norm:
  "normalize_image_url lower_latin1 (lit ''/i/jul.png'') = lit ''https://duckduckgo.com/i/jul.png''"
  by (simp add: normalize_plain lit_def startswith_def)

lemma demo_main: "main demo_world = Inr demo_out"
  unfolding main_def demo_world_def
  by (simp add: demo_read build_entry_def ddg_search_image_def ddg_extract_def
      fallback_def RATINGS_def demo_out_def get_def py_or_def unreserved_def hex_digit_def
      strip_def isspace_def demo_region [unfolded lit_def, simplified]
      demo_norm [unfolded lit_def, simplified] lit_def)

theorem output_names_first_seen_witness:
  "main demo_world = Inr demo_out \<and>
   all_parts demo_rows = [lit ''PNL'', lit ''pnl'', lit ''Jul'', lit ''Pnl''] \<and>
   map name demo_out = [lit ''PNL'', lit ''Jul''] \<and>
   distinct (map lower_latin1 (map name demo_out))"
proof -
  have n: "map name demo_out = [lit ''PNL'', lit ''Jul'']"
    by (simp add: demo_out_def)
  have "csv_file demo_world = Some demo_rows" "str_lower demo_world = lower_latin1"
    by (simp_all add: demo_world_def)
  with output_names_first_seen [OF demo_main]
  have "distinct (map lower_latin1 (map name demo_out))"
    by (elim exE conjE) simp
  with demo_main demo_parts n show ?thesis by simp
qed

section \<open>Image Resolver: properties\<close>

lemma icon_url_value:
  "icon_url d = (case icon_value d of Some v \<Rightarrow> usable v | None \<Rightarrow> Inl AttributeError)"
  by (simp add: icon_url_def icon_value_def py_get_def Let_def split: pyval.splits)

lemma icon_quiet_url: "icon_quiet d \<Longrightarrow> icon_url d = Inr None"
  by (auto simp: icon_url_value icon_quiet_def usable_def split: option.splits pyval.splits)

lemma scan_topics_quiet: "list_all sub_quiet subs \<Longrightarrow> scan_topics lower subs = Inr None"
  by (induction subs) (auto simp: sub_quiet_def icon_quiet_url split: pyval.splits)

lemma scan_nested_quiet:
  "(case t of PList subs \<Rightarrow> list_all sub_quiet subs | _ \<Rightarrow> True) \<Longrightarrow> scan_nested lower t = Inr None"
  by (auto simp: scan_nested_def scan_topics_quiet split: pyval.splits)

lemma scan_related_quiet: "list_all item_quiet items \<Longrightarrow> scan_related lower items = Inr None"
proof (induction items)
  case Nil
  then show ?case by simp
next
  case (Cons item items)
  then show ?case
    by (cases item) (simp_all add: item_quiet_def icon_quiet_url scan_nested_quiet)
qed

lemma no_image_found_empty: "no_image_found d \<Longrightarrow> ddg_extract lower (PDict d) = Inr []"
  unfolding no_image_found_def ddg_extract_def Let_def
  by (cases "py_or (get d (lit ''Image'')) (get d (lit ''image''))";
      cases "py_or (get d (lit ''RelatedTopics'')) (PList [])")
     (auto simp: scan_related_quiet)


lemma find_append:
  "find P (xs @ ys) = (case find P xs of Some x \<Rightarrow> Some x | None \<Rightarrow> find P ys)"
  by (induction xs) auto

lemma strip_Nil: "strip [] = []"
  by (simp add: strip_def)

lemma icon_url_cases:
  "icon_url d = Inr None \<Longrightarrow> find nonblank (icon_of (PDict d)) = None"
  "icon_url d = Inr (Some u) \<Longrightarrow> find nonblank (icon_of (PDict d)) = Some u"
  by (auto simp: icon_url_value icon_of_def usable_def nonblank_def strip_Nil
      split: option.splits pyval.splits if_splits)

lemma agrees_topics: "agrees lower (scan_topics lower subs) (concat (map icon_of subs))"
proof (induction subs)
  case Nil
  then show ?case by (simp add: agrees_def)
next
  case (Cons sub subs)
  show ?case
  proof (cases sub)
    case (PDict d)
    show ?thesis
    proof (cases "icon_url d")
      case (Inl e)
      then show ?thesis using PDict by (simp add: agrees_def)
    next
      case (Inr x)
      then show ?thesis
        using PDict Cons icon_url_cases [of d]
        by (cases x) (auto simp: find_append agrees_def split: sum.splits option.splits)
    qed
  qed (use Cons in \<open>simp_all add: icon_of_def\<close>)
qed

lemma agrees_nested:
  "agrees lower (scan_nested lower t) (case t of PList subs \<Rightarrow> concat (map icon_of subs) | _ \<Rightarrow> [])"
  using agrees_topics [of lower]
  by (cases t) (auto simp: scan_nested_def agrees_def)

lemma agrees_related: "agrees lower (scan_related lower items) (concat (map entry_icons items))"
proof (induction items)
  case Nil
  then show ?case by (simp add: agrees_def)
next
  case (Cons item items)
  show ?case
  proof (cases item)
    case (PDict d)
    let ?nested = "case get d (lit ''Topics'') of PList subs \<Rightarrow> concat (map icon_of subs) | _ \<Rightarrow> []"
    have e: "entry_icons item = icon_of (PDict d) @ ?nested"
      using PDict by (simp add: entry_icons_def)
    show ?thesis
    proof (cases "icon_url d")
      case (Inl e)
      then show ?thesis using PDict by (simp add: agrees_def)
    next
      case (Inr x)
      show ?thesis
      proof (cases x)
        case (Some u)
        then show ?thesis
          using PDict Inr icon_url_cases(2) [of d u] e
          by (simp add: find_append agrees_def)
      next
        case None
        have i: "find nonblank (icon_of (PDict d)) = None"
          using None Inr icon_url_cases(1) by simp
        show ?thesis
        proof (cases "scan_nested lower (get d (lit ''Topics''))")
          case (Inl e)
          then show ?thesis using PDict Inr None by (simp add: agrees_def)
        next
          case (Inr y)
          then show ?thesis
            using PDict \<open>icon_url d = Inr x\<close> None i e Cons agrees_nested [of lower "get d (lit ''Topics'')"]
            by (cases y) (auto simp: find_append agrees_def split: sum.splits option.splits)
        qed
      qed
    qed
  qed (use Cons in \<open>simp_all add: entry_icons_def icon_of_def\<close>)
qed

lemma ddg_extract_candidate:
  "ddg_extract lower (PDict d) = Inr r \<Longrightarrow> r = normalize_image_url lower (candidate nonblank d)"
proof -
  assume a: "ddg_extract lower (PDict d) = Inr r"
  let ?img = "py_or (get d (lit ''Image'')) (get d (lit ''image''))"
  let ?rt = "py_or (get d (lit ''RelatedTopics'')) (PList [])"
  let ?scan = "case ?rt of PList items \<Rightarrow> scan_related lower items | _ \<Rightarrow> Inr None"
  have rel: "agrees lower ?scan (related_icons d)"
  proof (cases "get d (lit ''RelatedTopics'')")
    case (PList items)
    then show ?thesis
      using agrees_related [of lower items]
      by (cases "items = []") (simp_all add: py_or_def related_icons_def agrees_def)
  qed (simp_all add: py_or_def related_icons_def agrees_def)
  show ?thesis
  proof (cases "find nonblank (top_image d)")
    case (Some u)
    then have "?img = PStr u" "strip u \<noteq> []" "u \<noteq> []"
      by (auto simp: top_image_def nonblank_def strip_Nil split: pyval.splits if_splits)
    then show ?thesis
      using a Some by (auto simp: ddg_extract_def candidate_def find_append Let_def strip_Nil)
  next
    case None
    then have top: "(case ?img of PStr u \<Rightarrow> if u \<noteq> [] \<and> strip u \<noteq> [] then Some u else None | _ \<Rightarrow> None) = None"
      by (auto simp: top_image_def nonblank_def split: pyval.splits if_splits)
    show ?thesis
    proof (cases ?scan)
      case (Inl e)
      then show ?thesis using a top by (simp add: ddg_extract_def Let_def)
    next
      case (Inr x)
      show ?thesis
      proof (cases x)
        case (Some y)
        then show ?thesis
          using a top Inr rel None
          by (auto simp: ddg_extract_def Let_def agrees_def candidate_def find_append)
      next
        case n: None
        then have "find nonblank (related_icons d) = None"
          using rel Inr by (simp add: agrees_def)
        then have c: "candidate nonblank d = abstract_image d"
          using None by (simp add: candidate_def find_append)
        show ?thesis
          using a top Inr n unfolding c
          by (cases "get d (lit ''AbstractImage'')")
             (auto simp: ddg_extract_def Let_def abstract_image_def normalize_plain split: if_splits)
      qed
    qed
  qed
qed


lemma icon_shaped_url: "icon_shaped d \<Longrightarrow> \<exists>x. icon_url d = Inr x"
  by (auto simp: icon_url_value icon_shaped_def usable_def split: option.splits pyval.splits)

lemma scan_topics_shaped: "list_all sub_shaped subs \<Longrightarrow> \<exists>x. scan_topics lower subs = Inr x"
proof (induction subs)
  case Nil
  then show ?case by simp
next
  case (Cons sub subs)
  from Cons obtain z where z: "scan_topics lower subs = Inr z" by auto
  show ?case
  proof (cases sub)
    case (PDict d)
    then have "icon_shaped d" using Cons.prems by (simp add: sub_shaped_def)
    from icon_shaped_url [OF this] obtain x where x: "icon_url d = Inr x" ..
    show ?thesis using PDict x z by (cases x) simp_all
  qed (use z in simp_all)
qed

lemma scan_nested_shaped:
  "(case t of PList subs \<Rightarrow> list_all sub_shaped subs | _ \<Rightarrow> True) \<Longrightarrow> \<exists>x. scan_nested lower t = Inr x"
  using scan_topics_shaped by (cases t) (auto simp: scan_nested_def)

lemma scan_related_shaped: "list_all item_shaped items \<Longrightarrow> \<exists>x. scan_related lower items = Inr x"
proof (induction items)
  case Nil
  then show ?case by simp
next
  case (Cons item items)
  show ?case
  proof (cases item)
    case (PDict d)
    then have s: "icon_shaped d"
      and t: "case get d (lit ''Topics'') of PList subs \<Rightarrow> list_all sub_shaped subs | _ \<Rightarrow> True"
      using Cons.prems by (simp_all add: item_shaped_def)
    from icon_shaped_url [OF s] obtain x where x: "icon_url d = Inr x" ..
    from scan_nested_shaped [OF t] obtain y where y: "scan_nested lower (get d (lit ''Topics'')) = Inr y" ..
    from Cons obtain z where z: "scan_related lower items = Inr z" by auto
    show ?thesis using PDict x y z by (cases x; cases y) simp_all
  qed (use Cons in simp_all)
qed

lemma ddg_extract_shaped: "body_shaped d \<Longrightarrow> \<exists>r. ddg_extract lower (PDict d) = Inr r"
proof -
  assume b: "body_shaped d"
  let ?img = "py_or (get d (lit ''Image'')) (get d (lit ''image''))"
  let ?top = "case ?img of PStr u \<Rightarrow> if u \<noteq> [] \<and> strip u \<noteq> [] then Some u else None | _ \<Rightarrow> None"
  let ?rt = "py_or (get d (lit ''RelatedTopics'')) (PList [])"
  let ?scan = "case ?rt of PList items \<Rightarrow> scan_related lower items | _ \<Rightarrow> Inr None"
  let ?abs = "get d (lit ''AbstractImage'')"
  have "\<exists>x. ?scan = Inr x"
    using b scan_related_shaped [of _ lower] by (cases ?rt) (auto simp: body_shaped_def)
  then obtain x where x: "?scan = Inr x" ..
  have a: "case ?abs of PStr u \<Rightarrow> True | v \<Rightarrow> \<not> truthy v"
    using b by (simp add: body_shaped_def)
  have last: "\<exists>r. (if truthy ?abs then (case ?abs of PStr u \<Rightarrow> Inr (normalize_image_url lower u)
                | _ \<Rightarrow> Inl AttributeError) else Inr []) = Inr r"
    using a by (cases ?abs) auto
  show ?thesis
  proof (cases ?top)
    case (Some u)
    then show ?thesis by (simp add: ddg_extract_def Let_def)
  next
    case None
    show ?thesis
    proof (cases x)
      case (Some y)
      then show ?thesis using None x by (simp add: ddg_extract_def Let_def)
    next
      case n: None
      then show ?thesis using None x last by (simp add: ddg_extract_def Let_def)
    qed
  qed
qed

lemmas resolver_defs = ddg_extract_def get_def py_or_def icon_url_def py_get_def usable_def
  scan_nested_def strip_def isspace_def lit_def

lemmas icon_defs = entry_icons_def icon_of_def icon_value_def nonblank_def nonempty_def get_def
  py_or_def strip_def isspace_def lit_def

lemmas candidate_defs = candidate_def top_image_def related_icons_def abstract_image_def icon_defs

lemma norm_examples:
  "normalize_image_url lower (lit ''/i/a.jpg?f=1'') = lit ''https://duckduckgo.com/i/a.jpg''"
  "normalize_image_url lower (lit ''https://a.b/c.png'') = lit ''https://a.b/c.png''"
  "normalize_image_url lower (lit ''ftp://a.b/c.png'') = []"
  "normalize_image_url lower (lit '' '') = []"
  by (simp_all add: normalize_plain startswith_def lit_def)

lemmas norm_evals = norm_examples [unfolded lit_def, simplified]

lemmas item_defs = blank_first_def rejected_first_def blank_item_def valid_item_def rejected_icon_def

lemma scan_topics_skip_quiet:
  "list_all sub_quiet subs \<Longrightarrow> scan_topics lower (subs @ rest) = scan_topics lower rest"
  by (induction subs) (auto simp: sub_quiet_def icon_quiet_url split: pyval.splits)

lemma scan_related_skip_quiet:
  "list_all item_quiet pre \<Longrightarrow> scan_related lower (pre @ rest) = scan_related lower rest"
proof (induction pre)
  case Nil
  then show ?case by simp
next
  case (Cons item pre)
  then show ?case
    by (cases item) (simp_all add: item_quiet_def icon_quiet_url scan_nested_quiet)
qed

lemma icon_value_hit: "icon_value d = Some (PStr u) \<Longrightarrow> nonblank u \<Longrightarrow> icon_url d = Inr (Some u)"
  by (auto simp: icon_url_value usable_def nonblank_def strip_Nil)

text \<open>
  Claim C5, amended. For every response body that is a JSON object, whenever the
  resolver returns a value it is the normalized form of the candidate chosen by this
  priority: (1) the top-level image, read as \<^verbatim>\<open>Image\<close> or else \<^verbatim>\<open>image\<close>, when it is a
  string that is not blank; (2) the first icon URL that is not blank (not empty after
  stripping white space) in the scan of the related topics, each entry giving its own
  icon and then the icons of its nested \<^verbatim>\<open>Topics\<close>, in list order; (3) the top-level
  \<^verbatim>\<open>AbstractImage\<close>; (4) the empty string. On a well-shaped body the resolver does
  return.
\<close>

theorem ddg_extract_priority:
  "(ddg_extract lower (PDict d) = Inr r \<longrightarrow> r = normalize_image_url lower (candidate nonblank d)) \<and>
   (body_shaped d \<longrightarrow> ddg_extract lower (PDict d) = Inr (normalize_image_url lower (candidate nonblank d)))"
proof
  show "ddg_extract lower (PDict d) = Inr r \<longrightarrow> r = normalize_image_url lower (candidate nonblank d)"
    using ddg_extract_candidate by blast
  show "body_shaped d \<longrightarrow> ddg_extract lower (PDict d) = Inr (normalize_image_url lower (candidate nonblank d))"
  proof
    assume "body_shaped d"
    then obtain x where x: "ddg_extract lower (PDict d) = Inr x"
      using ddg_extract_shaped by blast
    then have "x = normalize_image_url lower (candidate nonblank d)"
      by (rule ddg_extract_candidate)
    with x show "ddg_extract lower (PDict d) = Inr (normalize_image_url lower (candidate nonblank d))"
      by simp
  qed
qed

text \<open>
  A body whose first entry has an empty icon URL and whose second entry carries the
  first non-blank URL in a nested topic.
\<close>

theorem ddg_extract_priority_witness:
  "body_shaped nested_body \<and>
   candidate nonblank nested_body = lit ''/i/a.jpg?f=1'' \<and>
   ddg_extract lower_latin1 (PDict nested_body) = Inr (lit ''https://duckduckgo.com/i/a.jpg'')"
proof -
  have b: "body_shaped nested_body"
    by (simp add: body_shaped_def item_shaped_def sub_shaped_def icon_shaped_def icon_value_def
        nested_body_def get_def py_or_def lit_def)
  have c: "candidate nonblank nested_body = lit ''/i/a.jpg?f=1''"
    by (simp add: nested_body_def candidate_defs)
  have "ddg_extract lower_latin1 (PDict nested_body)
        = Inr (normalize_image_url lower_latin1 (candidate nonblank nested_body))"
    by (rule ddg_extract_priority [THEN conjunct2, rule_format, OF b])
  then have "ddg_extract lower_latin1 (PDict nested_body) = Inr (lit ''https://duckduckgo.com/i/a.jpg'')"
    by (simp only: c norm_examples)
  with b c show ?thesis by blast
qed

text \<open>
  The claim as stated fails where an icon URL is non-empty but blank: read with
  "non-empty", the chosen candidate is the blank URL, whose normal form is empty, while
  the resolver skips it and returns the abstract image.
\<close>

theorem ddg_extract_nonempty_counterexample:
  "ddg_extract lower_latin1 (PDict blank_icon_body) = Inr (lit ''https://a.b/c.png'') \<and>
   normalize_image_url lower_latin1 (candidate nonempty blank_icon_body) = []"
proof -
  have c: "candidate nonempty blank_icon_body = lit '' ''"
    by (simp add: blank_icon_body_def candidate_defs)
  have "ddg_extract lower_latin1 (PDict blank_icon_body) = Inr (lit ''https://a.b/c.png'')"
    by (simp add: blank_icon_body_def resolver_defs norm_evals)
  then show ?thesis by (simp only: c norm_examples)
qed

text \<open>
  Claim C8, amended. The scan of the related topics stops at the first icon URL that is
  not blank as a raw string, be it the icon of an entry or of one of its nested topics,
  and returns its normalized form whatever follows in the list, also when normalization
  rejects the URL and gives the empty string: on the list \<open>rejected_first\<close> the resolver
  returns the empty string although the second entry carries a valid https icon URL.
\<close>

theorem scan_stops_at_first_nonblank:
  "(list_all item_quiet pre \<and> icon_value d = Some (PStr u) \<and> nonblank u \<longrightarrow>
      scan_related lower (pre @ PDict d # post) = Inr (Some (normalize_image_url lower u))) \<and>
   (list_all item_quiet pre \<and> icon_quiet d \<and>
    get d (lit ''Topics'') = PList (subs @ PDict s # subs') \<and>
    list_all sub_quiet subs \<and> icon_value s = Some (PStr u) \<and> nonblank u \<longrightarrow>
      scan_related lower (pre @ PDict d # post) = Inr (Some (normalize_image_url lower u))) \<and>
   scan_related lower rejected_first = Inr (Some []) \<and>
   ddg_extract lower (PDict [(lit ''RelatedTopics'', PList rejected_first)]) = Inr [] \<and>
   icon_of valid_item = [lit ''https://a.b/c.png''] \<and>
   http_url (lit ''https://a.b/c.png'')"
proof (intro conjI impI)
  assume "list_all item_quiet pre \<and> icon_value d = Some (PStr u) \<and> nonblank u"
  then show "scan_related lower (pre @ PDict d # post) = Inr (Some (normalize_image_url lower u))"
    by (simp add: scan_related_skip_quiet icon_value_hit)
next
  assume a: "list_all item_quiet pre \<and> icon_quiet d \<and>
    get d (lit ''Topics'') = PList (subs @ PDict s # subs') \<and>
    list_all sub_quiet subs \<and> icon_value s = Some (PStr u) \<and> nonblank u"
  then have "scan_nested lower (get d (lit ''Topics'')) = Inr (Some (normalize_image_url lower u))"
    by (simp add: scan_nested_def scan_topics_skip_quiet icon_value_hit)
  then show "scan_related lower (pre @ PDict d # post) = Inr (Some (normalize_image_url lower u))"
    using a by (simp add: scan_related_skip_quiet icon_quiet_url)
next
  show "scan_related lower rejected_first = Inr (Some [])"
    by (simp add: item_defs resolver_defs norm_evals)
  show "ddg_extract lower (PDict [(lit ''RelatedTopics'', PList rejected_first)]) = Inr []"
    by (simp add: item_defs resolver_defs norm_evals)
  show "icon_of valid_item = [lit ''https://a.b/c.png'']"
    by (simp add: valid_item_def icon_of_def icon_value_def get_def py_or_def lit_def)
  show "http_url (lit ''https://a.b/c.png'')"
    by (simp add: http_url_def startswith_def lit_def)
qed

theorem scan_stops_at_first_nonblank_witness:
  "list_all item_quiet [blank_item] \<and>
   icon_value rejected_icon = Some (PStr (lit ''ftp://a.b/c.png'')) \<and>
   nonblank (lit ''ftp://a.b/c.png'') \<and>
   scan_related lower_latin1 ([blank_item] @ PDict rejected_icon # [valid_item]) = Inr (Some [])"
proof -
  have q: "list_all item_quiet [blank_item]"
    by (simp add: blank_item_def item_quiet_def icon_quiet_def icon_value_def get_def py_or_def
        strip_def isspace_def lit_def)
  have v: "icon_value rejected_icon = Some (PStr (lit ''ftp://a.b/c.png''))"
    by (simp add: rejected_icon_def icon_value_def get_def py_or_def lit_def)
  have n: "nonblank (lit ''ftp://a.b/c.png'')"
    by (simp add: nonblank_def strip_def isspace_def lit_def)
  have "scan_related lower_latin1 ([blank_item] @ PDict rejected_icon # [valid_item])
        = Inr (Some (normalize_image_url lower_latin1 (lit ''ftp://a.b/c.png'')))"
    using scan_stops_at_first_nonblank [of "[blank_item]" rejected_icon "lit ''ftp://a.b/c.png''"
        lower_latin1 "[valid_item]"] q v n
    by blast
  then have "scan_related lower_latin1 ([blank_item] @ PDict rejected_icon # [valid_item]) = Inr (Some [])"
    by (simp only: norm_examples)
  with q v n show ?thesis by blast
qed

text \<open>
  The claim as stated fails on a blank icon URL: it is non-empty as a raw string and its
  normal form is empty, yet the scan does not stop there and returns the later URL.
\<close>

theorem scan_nonempty_counterexample:
  "find nonempty (concat (map entry_icons blank_first)) = Some (lit '' '') \<and>
   normalize_image_url lower_latin1 (lit '' '') = [] \<and>
   scan_related lower_latin1 blank_first = Inr (Some (lit ''https://a.b/c.png''))"
proof -
  have "find nonempty (concat (map entry_icons blank_first)) = Some (lit '' '')"
    by (simp add: item_defs icon_defs)
  moreover have "scan_related lower_latin1 blank_first = Inr (Some (lit ''https://a.b/c.png''))"
    by (simp add: item_defs resolver_defs norm_evals)
  ultimately show ?thesis by (simp add: norm_examples)
qed

text \<open>
  Claim C2. A record is built with a non-empty image, which is the placeholder when the
  resolver returns the empty string; so every record of a completed run has a non-empty
  image. The resolver returns the empty string when the request or the parsing fails,
  and when the response holds no image field.
\<close>

theorem image_never_empty:
  "(build_entry w i artist = Inr en \<longrightarrow>
      image en \<noteq> [] \<and>
      (ddg_search_image (str_lower w) (url_quote w) (http_json w i) artist = Inr [] \<longrightarrow>
         image en = PLACEHOLDER)) \<and>
   (main w = Inr out \<longrightarrow> list_all (\<lambda>en. image en \<noteq> []) out) \<and>
   (qu (artist @ lit '' musician'') = Inr q \<and>
    fetch (lit ''https://api.duckduckgo.com/?q='' @ q @ lit ''&format=json&no_html=1&skip_disambig=1'')
      = None \<longrightarrow>
      ddg_search_image lower qu fetch artist = Inr []) \<and>
   (no_image_found d \<longrightarrow> ddg_extract lower (PDict d) = Inr [])"
proof -
  have a: "build_entry w i artist = Inr en \<longrightarrow>
      image en \<noteq> [] \<and>
      (ddg_search_image (str_lower w) (url_quote w) (http_json w i) artist = Inr [] \<longrightarrow>
         image en = PLACEHOLDER)"
    using build_entry_image by blast
  have b: "main w = Inr out \<longrightarrow> list_all (\<lambda>en. image en \<noteq> []) out"
  proof
    assume "main w = Inr out"
    then obtain artists where "main_loop w 1 artists = Inr out"
      by (auto simp: main_def split: sum.splits)
    then show "list_all (\<lambda>en. image en \<noteq> []) out"
      using main_loop_images by (auto simp: list_all_iff)
  qed
  have c: "qu (artist @ lit '' musician'') = Inr q \<and>
    fetch (lit ''https://api.duckduckgo.com/?q='' @ q @ lit ''&format=json&no_html=1&skip_disambig=1'')
      = None \<longrightarrow>
      ddg_search_image lower qu fetch artist = Inr []"
    by (simp add: ddg_search_image_def)
  have d: "no_image_found d \<longrightarrow> ddg_extract lower (PDict d) = Inr []"
    using no_image_found_empty by blast
  from a b c d show ?thesis by blast
qed

theorem image_never_empty_witness:
  "main demo_world = Inr demo_out \<and>
   list_all (\<lambda>en. image en \<noteq> []) demo_out \<and>
   no_image_found empty_body \<and>
   ddg_extract lower_latin1 (PDict empty_body) = Inr []"
proof -
  have e: "no_image_found empty_body"
    by (simp add: no_image_found_def item_quiet_def icon_quiet_def icon_value_def empty_body_def
        get_def py_or_def strip_def lit_def)
  note all = image_never_empty [where w = demo_world and out = demo_out and d = empty_body
      and lower = lower_latin1]
  have i: "list_all (\<lambda>en. image en \<noteq> []) demo_out"
    by (rule all [THEN conjunct2, THEN conjunct1, rule_format, OF demo_main])
  have x: "ddg_extract lower_latin1 (PDict empty_body) = Inr []"
    by (rule all [THEN conjunct2, THEN conjunct2, THEN conjunct2, rule_format, OF e])
  show ?thesis by (intro conjI demo_main i e x)
qed

section \<open>Splitter: fragments and separators\<close>

lemma ci_prefix_Cons:
  "ci_prefix (p # ps) u = (case u of [] \<Rightarrow> None | c # cs \<Rightarrow> if ci_char p c then ci_prefix ps cs else None)"
  by (cases u) simp_all

lemma last_dropWhile: "dropWhile P xs \<noteq> [] \<Longrightarrow> last (dropWhile P xs) = last xs"
  by (induction xs) (auto split: if_splits)

lemma strip_ends:
  assumes "strip u \<noteq> []"
  shows "\<not> isspace (hd (strip u))" and "\<not> isspace (last (strip u))"
proof -
  let ?x = "dropWhile isspace u"
  let ?w = "dropWhile isspace (rev ?x)"
  have w: "?w \<noteq> []" using assms by (simp add: strip_def)
  have x: "?x \<noteq> []"
  proof
    assume "?x = []"
    then have "?w = []" by (simp only: rev.simps dropWhile.simps)
    with w show False ..
  qed
  have "last (strip u) = hd ?w" using w by (simp add: strip_def last_rev)
  then show "\<not> isspace (last (strip u))" using w hd_dropWhile by metis
  have "hd (strip u) = last ?w" using w by (simp add: strip_def hd_rev)
  also have "\<dots> = last (rev ?x)" using w by (rule last_dropWhile)
  also have "\<dots> = hd ?x" using x by (simp add: last_rev)
  finally show "\<not> isspace (hd (strip u))" using x hd_dropWhile by metis
qed

lemma dropWhile_id: "xs = [] \<or> \<not> P (hd xs) \<Longrightarrow> dropWhile P xs = xs"
  by (cases xs) auto

lemma strip_idem: "strip (strip u) = strip u"
proof (cases "strip u = []")
  case True
  then show ?thesis by (simp add: strip_Nil)
next
  case False
  have a: "dropWhile isspace (strip u) = strip u"
    using strip_ends(1) [OF False] by (simp add: dropWhile_id)
  have b: "dropWhile isspace (rev (strip u)) = rev (strip u)"
    using strip_ends(2) [OF False] False by (intro dropWhile_id) (simp add: hd_rev)
  show ?thesis
    unfolding strip_def [of "strip u"] a b by simp
qed

lemma keep_names_filter: "keep_names ps = filter (\<lambda>p. p \<noteq> []) (map clean_name ps)"
  by (induction ps) (simp_all add: clean_name_def strip_idem Let_def)

lemma ci_prefix_append: "ci_prefix p u = Some r \<Longrightarrow> ci_prefix p (u @ t) = Some (r @ t)"
  by (induction p u rule: ci_prefix.induct) (auto split: if_splits)

lemma ft_not_feat:
  "ci_prefix (lit '' ft. '') u = Some r \<Longrightarrow> ci_prefix (lit '' feat.'') (u @ t) = None"
  by (cases u; cases "tl u"; cases "tl (tl u)") (auto simp: lit_def ci_char_def)

lemma and_not_feat:
  "ci_prefix (lit '' and '') u = Some r \<Longrightarrow>
     ci_prefix (lit '' feat.'') (u @ t) = None \<and> ci_prefix (lit '' ft. '') (u @ t) = None"
  by (cases u; cases "tl u") (auto simp: lit_def ci_char_def)

lemma is_sep_append: "is_sep s \<Longrightarrow> match_sep (s @ t) = Some t"
proof (cases s)
  case Nil
  assume "is_sep s"
  then show ?thesis using Nil by (simp add: is_sep_def match_sep_def)
next
  case (Cons c cs)
  assume "is_sep s"
  then have m: "match_sep (c # cs) = Some []" using Cons by (simp add: is_sep_def)
  show ?thesis
  proof (cases "c = 59 \<or> c = 44 \<or> c = 47")
    case True
    then show ?thesis using m Cons by (auto simp: match_sep_def)
  next
    case False
    note punct = this
    show ?thesis
    proof (cases "ci_prefix (lit '' feat.'') (c # cs)")
      case (Some r)
      then have "r = []" using m punct by (simp add: match_sep_def)
      then show ?thesis
        using ci_prefix_append [OF Some, of t] punct Cons by (simp add: match_sep_def)
    next
      case None
      note feat = this
      show ?thesis
      proof (cases "ci_prefix (lit '' ft. '') (c # cs)")
        case (Some r)
        then have "r = []" using m punct feat by (simp add: match_sep_def)
        then show ?thesis
          using ci_prefix_append [OF Some, of t] ft_not_feat [OF Some, of t] punct Cons
          by (simp add: match_sep_def)
      next
        case None
        note ft = this
        show ?thesis
        proof (cases "c = 38")
          case True
          then have "cs = []" using m punct feat ft by (simp add: match_sep_def)
          then show ?thesis using True Cons by (simp add: match_sep_def lit_def ci_char_def)
        next
          case False
          then have a: "ci_prefix (lit '' and '') (c # cs) = Some []"
            using m punct feat ft by (simp add: match_sep_def)
          show ?thesis
            using ci_prefix_append [OF a, of t] and_not_feat [OF a, of t] punct False Cons
            by (simp add: match_sep_def)
        qed
      qed
    qed
  qed
qed

lemma sep_free_split: "sep_free f t \<Longrightarrow> re_split cur (f @ t) = re_split (cur @ f) t"
  by (induction f arbitrary: cur) auto

lemma is_sep_split: "is_sep s \<Longrightarrow> re_split cur (s @ t) = cur # re_split [] t"
  using is_sep_append [of s t]
  by (cases s) (auto simp: is_sep_def match_sep_def)

lemma well_formed_split:
  "well_formed f rest \<Longrightarrow> re_split cur (join_cell f rest) = (cur @ f) # map snd rest"
proof (induction rest arbitrary: f cur)
  case Nil
  then show ?case using sep_free_split [of f "[]" cur] by simp
next
  case (Cons sg rest)
  obtain s g where sg: "sg = (s, g)" by (cases sg)
  from Cons.prems have a: "sep_free f (s @ join_cell g rest)" and b: "is_sep s"
    and c: "well_formed g rest"
    by (simp_all add: sg)
  have "re_split cur (join_cell f (sg # rest)) = re_split (cur @ f) (s @ join_cell g rest)"
    using sep_free_split [OF a] by (simp add: sg)
  also have "\<dots> = (cur @ f) # re_split [] (join_cell g rest)"
    by (rule is_sep_split [OF b])
  also have "\<dots> = (cur @ f) # g # map snd rest"
    using Cons.IH [OF c, of "[]"] by simp
  finally show ?case by (simp add: sg)
qed

lemma well_formed_clean: "well_formed f rest \<Longrightarrow> p \<in> set (f # map snd rest) \<Longrightarrow> clean_name p \<noteq> []"
proof (induction rest arbitrary: f)
  case Nil
  then show ?case by simp
next
  case (Cons sg rest)
  then show ?case by (cases sg) auto
qed

lemma clean_name_Nil: "clean_name [] = []"
  by (simp add: clean_name_def strip_Nil)

lemma ci_prefix_all2: "ci_prefix p s = Some [] \<longleftrightarrow> list_all2 ci_char p s"
  by (induction p s rule: ci_prefix.induct) auto

lemma is_sep_separator: "is_sep s \<longleftrightarrow> is_separator s"
proof
  assume "is_sep s"
  then have m: "match_sep s = Some []" by (simp add: is_sep_def)
  then obtain c cs where s: "s = c # cs" by (cases s) (auto simp: match_sep_def)
  show "is_separator s"
  proof (cases "c = 59 \<or> c = 44 \<or> c = 47")
    case True
    then have "cs = []" using m s by (auto simp: match_sep_def)
    then show ?thesis using True s by (auto simp: is_separator_def lit_def)
  next
    case False
    note punct = this
    show ?thesis
    proof (cases "ci_prefix (lit '' feat.'') s")
      case (Some r)
      then have "r = []" using m punct s by (simp add: match_sep_def)
      then show ?thesis using Some by (simp add: is_separator_def ci_prefix_all2)
    next
      case None
      note feat = this
      show ?thesis
      proof (cases "ci_prefix (lit '' ft. '') s")
        case (Some r)
        then have "r = []" using m punct feat s by (simp add: match_sep_def)
        then show ?thesis using Some by (simp add: is_separator_def ci_prefix_all2)
      next
        case None
        show ?thesis
        proof (cases "c = 38")
          case True
          then have "cs = []" using m punct feat None s by (simp add: match_sep_def)
          then show ?thesis using True s by (simp add: is_separator_def lit_def)
        next
          case False
          then have "ci_prefix (lit '' and '') s = Some []"
            using m punct feat None s by (simp add: match_sep_def)
          then show ?thesis by (simp add: is_separator_def ci_prefix_all2)
        qed
      qed
    qed
  qed
next
  assume "is_separator s"
  then consider "s = [59] \<or> s = [44] \<or> s = [47] \<or> s = [38]"
    | "ci_prefix (lit '' feat.'') s = Some []"
    | "ci_prefix (lit '' ft. '') s = Some []"
    | "ci_prefix (lit '' and '') s = Some []"
    by (auto simp: is_separator_def ci_prefix_all2 lit_def)
  then show "is_sep s"
  proof cases
    case 1
    then show ?thesis by (auto simp: is_sep_def match_sep_def lit_def ci_char_def)
  next
    case 2
    then obtain c cs where s: "s = c # cs" by (cases s) (auto simp: lit_def)
    then have "c = 32" using 2 by (auto simp: lit_def ci_char_def split: if_splits)
    then show ?thesis using 2 s by (simp add: is_sep_def match_sep_def)
  next
    case 3
    then obtain c cs where s: "s = c # cs" by (cases s) (auto simp: lit_def)
    then have c: "c = 32" using 3 by (auto simp: lit_def ci_char_def split: if_splits)
    have "ci_prefix (lit '' feat.'') s = None" using ft_not_feat [OF 3, of "[]"] by simp
    then show ?thesis using 3 s c by (simp add: is_sep_def match_sep_def)
  next
    case 4
    then obtain c cs where s: "s = c # cs" by (cases s) (auto simp: lit_def)
    then have c: "c = 32" using 4 by (auto simp: lit_def ci_char_def split: if_splits)
    have "ci_prefix (lit '' feat.'') s = None" "ci_prefix (lit '' ft. '') s = None"
      using and_not_feat [OF 4, of "[]"] by simp_all
    then show ?thesis using 4 s c by (simp add: is_sep_def match_sep_def)
  qed
qed

lemma demo_cell_wf: "well_formed (fst demo_cell) (snd demo_cell)"
  by (simp add: demo_cell_def is_sep_def split_defs)

lemma demo_cell_join: "join_cell (fst demo_cell) (snd demo_cell) = lit ''Drake FEAT. Dave & drake''"
  by (simp add: demo_cell_def lit_def)

lemma demo_cell_clean:
  "map clean_name (fst demo_cell # map snd (snd demo_cell)) = [lit ''Drake'', lit ''Dave'', lit ''drake'']"
  by (simp add: demo_cell_def split_defs)


text \<open>
  Claim C6. The Splitter returns, in order and without deduplication, the non-empty
  cleaned forms of the pieces into which the separator pattern cuts the raw value; the
  separators are the characters \<^verbatim>\<open>; , / &\<close> and the words feat., ft. and and in any
  casing, with the spaces the pattern writes around them. For a value laid out as k
  fragments joined by separators, each fragment free of separators and non-empty after
  cleaning, the result is exactly the k cleaned fragments, none of them empty.
\<close>

theorem split_artists_fragments:
  "split_artists (PStr u) = Inr (filter (\<lambda>p. p \<noteq> []) (map clean_name (re_split [] u))) \<and>
   is_sep s = is_separator s \<and>
   (well_formed f rest \<longrightarrow>
      split_artists (PStr (join_cell f rest)) = Inr (map clean_name (f # map snd rest)) \<and>
      length (map clean_name (f # map snd rest)) = Suc (length rest) \<and>
      [] \<notin> set (map clean_name (f # map snd rest)))"
proof (intro conjI)
  show "split_artists (PStr u) = Inr (filter (\<lambda>p. p \<noteq> []) (map clean_name (re_split [] u)))"
    by (simp add: split_artists_def keep_names_filter clean_name_Nil)
  show "is_sep s = is_separator s"
    by (rule is_sep_separator)
  show "well_formed f rest \<longrightarrow>
      split_artists (PStr (join_cell f rest)) = Inr (map clean_name (f # map snd rest)) \<and>
      length (map clean_name (f # map snd rest)) = Suc (length rest) \<and>
      [] \<notin> set (map clean_name (f # map snd rest))"
  proof
    assume w: "well_formed f rest"
    have ne: "\<forall>p\<in>set (f # map snd rest). clean_name p \<noteq> []"
      using well_formed_clean [OF w] by blast
    then have "f \<noteq> []" using clean_name_Nil by auto
    then have j: "join_cell f rest \<noteq> []" by (cases rest) auto
    have "filter (\<lambda>p. p \<noteq> []) (map clean_name (f # map snd rest)) = map clean_name (f # map snd rest)"
      using ne by (auto simp: filter_id_conv)
    then have "split_artists (PStr (join_cell f rest)) = Inr (map clean_name (f # map snd rest))"
      using j well_formed_split [OF w, of "[]"] by (simp add: split_artists_def keep_names_filter)
    moreover have "[] \<notin> set (map clean_name (f # map snd rest))"
      using ne by auto
    ultimately show "split_artists (PStr (join_cell f rest)) = Inr (map clean_name (f # map snd rest)) \<and>
      length (map clean_name (f # map snd rest)) = Suc (length rest) \<and>
      [] \<notin> set (map clean_name (f # map snd rest))"
      by simp
  qed
qed

text \<open>
  The value "Drake FEAT. Dave & drake" has three fragments; the result keeps both Drake
  and drake.
\<close>

theorem split_artists_fragments_witness:
  "well_formed (fst demo_cell) (snd demo_cell) \<and>
   is_separator (lit '' FEAT.'') \<and>
   split_artists (PStr (lit ''Drake FEAT. Dave & drake''))
     = Inr [lit ''Drake'', lit ''Dave'', lit ''drake'']"
proof -
  note all = split_artists_fragments [of _ "lit '' FEAT.''" "fst demo_cell" "snd demo_cell"]
  have "is_sep (lit '' FEAT.'')"
    by (simp add: is_sep_def split_defs)
  then have s: "is_separator (lit '' FEAT.'')"
    unfolding all [THEN conjunct2, THEN conjunct1] .
  have "split_artists (PStr (join_cell (fst demo_cell) (snd demo_cell)))
        = Inr (map clean_name (fst demo_cell # map snd (snd demo_cell)))"
    using all [THEN conjunct2, THEN conjunct2, rule_format, OF demo_cell_wf] by (rule conjunct1)
  then have "split_artists (PStr (lit ''Drake FEAT. Dave & drake''))
     = Inr [lit ''Drake'', lit ''Dave'', lit ''drake'']"
    unfolding demo_cell_join demo_cell_clean .
  with demo_cell_wf s show ?thesis by (intro conjI)
qed

section \<open>Name Normalizer: properties\<close>

lemma ci_prefix_drop: "ci_prefix p u = Some r \<Longrightarrow> r = drop (length p) u"
  by (induction p u rule: ci_prefix.induct) (auto split: if_splits)

lemma ci_prefix_take:
  "ci_prefix p u = Some r \<Longrightarrow> ci_prefix p (take (length p) u @ v) = Some v"
  by (induction p u rule: ci_prefix.induct) (auto split: if_splits)

lemma ci_prefix_short: "length u < length p \<Longrightarrow> ci_prefix p u = None"
  by (induction p u rule: ci_prefix.induct) auto

lemma dropWhile_suffix: "dropWhile P xs = y # ys \<Longrightarrow> suffix ys xs"
  by (metis suffix_dropWhile suffix_ConsD)

lemma match_feat_suffix: "match_feat u = Some r \<Longrightarrow> suffix r u"
  unfolding match_feat_def
  by (auto split: option.splits list.splits dest!: ci_prefix_drop dropWhile_suffix
      intro: suffix_order.trans suffix_drop)

lemma match_bracket_suffix: "match_bracket u = Some r \<Longrightarrow> suffix r u"
  unfolding match_bracket_def
  by (auto split: list.splits if_splits dest!: dropWhile_suffix intro: suffix_ConsI)

lemma match_feat_head: "c \<noteq> 40 \<Longrightarrow> match_feat (c # cs) = None"
  by (simp add: match_feat_def lit_def ci_char_def)

lemma match_bracket_head: "c \<noteq> 91 \<Longrightarrow> match_bracket (c # cs) = None"
  by (simp add: match_bracket_def)

lemma sub_feat_skip: "40 \<notin> set a \<Longrightarrow> sub_feat (a @ r) = a @ sub_feat r"
  by (induction a) (simp_all add: match_feat_head)

lemma sub_bracket_skip: "91 \<notin> set a \<Longrightarrow> sub_bracket (a @ r) = a @ sub_bracket r"
  by (induction a) (simp_all add: match_bracket_head)

lemma sub_feat_subset: "set (sub_feat u) \<subseteq> set u"
proof (induction u rule: sub_feat.induct)
  case 1
  then show ?case by simp
next
  case (2 c cs)
  show ?case
  proof (cases "match_feat (c # cs)")
    case None
    then show ?thesis using 2 by auto
  next
    case (Some rest)
    then have "set rest \<subseteq> set (c # cs)" using match_feat_suffix set_mono_suffix by blast
    then show ?thesis using 2 Some by auto
  qed
qed

lemma sub_bracket_subset: "set (sub_bracket u) \<subseteq> set u"
proof (induction u rule: sub_bracket.induct)
  case 1
  then show ?case by simp
next
  case (2 c cs)
  show ?case
  proof (cases "match_bracket (c # cs)")
    case None
    then show ?thesis using 2 by auto
  next
    case (Some rest)
    then have "set rest \<subseteq> set (c # cs)" using match_bracket_suffix set_mono_suffix by blast
    then show ?thesis using 2 Some by auto
  qed
qed

text \<open>
  A match of the feat pattern reads the four characters after the parenthesis and needs
  a closing parenthesis after them.
\<close>

lemma close_paren:
  "(case dropWhile (\<lambda>c. c \<noteq> 41) r of [] \<Rightarrow> None | _ # rest \<Rightarrow> Some rest) \<noteq> None \<longleftrightarrow> 41 \<in> set r"
  by (induction r) auto

lemma match_feat_iff:
  "match_feat (c # cs) \<noteq> None \<longleftrightarrow>
     c = 40 \<and> ci_prefix (lit ''feat'') (take 4 cs) = Some [] \<and> 41 \<in> set (drop 4 cs)"
proof -
  have d: "(dropWhile (\<lambda>c. c \<noteq> 41) r \<noteq> []) = (41 \<in> set r)" for r :: str
    by (induction r) auto
  have paren: "ci_prefix (lit ''(feat'') (x # cs) = (if x = 40 then ci_prefix (lit ''feat'') cs else None)"
    for x by (simp add: lit_def ci_char_def)
  have len: "length (lit ''feat'') = 4" by (simp add: lit_def)
  show ?thesis
  proof (cases "ci_prefix (lit ''feat'') cs")
    case None
    have "ci_prefix (lit ''feat'') (take 4 cs) \<noteq> Some []"
    proof
      assume a: "ci_prefix (lit ''feat'') (take 4 cs) = Some []"
      have "ci_prefix (lit ''feat'') (take 4 (take 4 cs) @ drop 4 cs) = Some (drop 4 cs)"
        using ci_prefix_take [OF a, of "drop 4 cs"] unfolding len .
      then show False using None by simp
    qed
    then show ?thesis using None by (simp add: match_feat_def paren)
  next
    case (Some r)
    have r: "r = drop 4 cs" using ci_prefix_drop [OF Some] unfolding len .
    have "ci_prefix (lit ''feat'') (take 4 cs @ []) = Some []"
      using ci_prefix_take [OF Some, of "[]"] unfolding len .
    then have t: "ci_prefix (lit ''feat'') (take 4 cs) = Some []" by simp
    have "match_feat (c # cs) \<noteq> None \<longleftrightarrow> c = 40 \<and> 41 \<in> set r"
      using Some close_paren [of r] by (cases "c = 40") (simp_all add: match_feat_def paren)
    then show ?thesis
      unfolding r using t by simp
  qed
qed


lemma sub_feat_keep4:
  assumes "40 \<notin> set (take 4 cs)"
  shows "take 4 (sub_feat cs) = take 4 cs \<and> drop 4 (sub_feat cs) = sub_feat (drop 4 cs)"
proof -
  have e: "sub_feat cs = take 4 cs @ sub_feat (drop 4 cs)"
    using sub_feat_skip [OF assms, of "drop 4 cs"] by simp
  show ?thesis
  proof (cases "4 \<le> length cs")
    case True
    then have "length (take 4 cs) = 4" by simp
    then show ?thesis by (subst (1 2) e) simp
  next
    case False
    then have "sub_feat cs = cs" "drop 4 cs = []" using e by simp_all
    then show ?thesis by simp
  qed
qed

lemma sub_bracket_keep4:
  assumes "91 \<notin> set (take 4 cs)"
  shows "take 4 (sub_bracket cs) = take 4 cs \<and> drop 4 (sub_bracket cs) = sub_bracket (drop 4 cs)"
proof -
  have e: "sub_bracket cs = take 4 cs @ sub_bracket (drop 4 cs)"
    using sub_bracket_skip [OF assms, of "drop 4 cs"] by simp
  show ?thesis
  proof (cases "4 \<le> length cs")
    case True
    then have "length (take 4 cs) = 4" by simp
    then show ?thesis by (subst (1 2) e) simp
  next
    case False
    then have "sub_bracket cs = cs" "drop 4 cs = []" using e by simp_all
    then show ?thesis by simp
  qed
qed

lemma feat_after_sub_feat:
  assumes "40 \<notin> set (take 4 cs)" and "match_feat (c # sub_feat cs) \<noteq> None"
  shows "match_feat (c # cs) \<noteq> None"
proof -
  note k = sub_feat_keep4 [OF assms(1)]
  from assms(2) have "c = 40" and "ci_prefix (lit ''feat'') (take 4 cs) = Some []"
    and "41 \<in> set (sub_feat (drop 4 cs))"
    unfolding match_feat_iff k [THEN conjunct1] k [THEN conjunct2] by blast+
  moreover have "set (sub_feat (drop 4 cs)) \<subseteq> set (drop 4 cs)" by (rule sub_feat_subset)
  ultimately show ?thesis unfolding match_feat_iff by blast
qed

lemma feat_after_sub_bracket:
  assumes "91 \<notin> set (take 4 cs)" and "match_feat (c # sub_bracket cs) \<noteq> None"
  shows "match_feat (c # cs) \<noteq> None"
proof -
  note k = sub_bracket_keep4 [OF assms(1)]
  from assms(2) have "c = 40" and "ci_prefix (lit ''feat'') (take 4 cs) = Some []"
    and "41 \<in> set (sub_bracket (drop 4 cs))"
    unfolding match_feat_iff k [THEN conjunct1] k [THEN conjunct2] by blast+
  moreover have "set (sub_bracket (drop 4 cs)) \<subseteq> set (drop 4 cs)" by (rule sub_bracket_subset)
  ultimately show ?thesis unfolding match_feat_iff by blast
qed

lemma plain_heads_suffix: "suffix r u \<Longrightarrow> plain_heads u \<Longrightarrow> plain_heads r"
  by (induction u) (auto simp: suffix_Cons)

lemma has_feat_suffix: "suffix r u \<Longrightarrow> has_feat r \<Longrightarrow> has_feat u"
  by (induction u) (auto simp: suffix_Cons)

lemma has_bracket_suffix: "suffix r u \<Longrightarrow> has_bracket r \<Longrightarrow> has_bracket u"
  by (induction u) (auto simp: suffix_Cons)

lemma plain_heads_take4: "plain_heads (40 # cs) \<Longrightarrow> 40 \<notin> set (take 4 cs) \<and> 91 \<notin> set (take 4 cs)"
  by (auto simp: list_all_iff)

lemma sub_feat_plain: "plain_heads u \<Longrightarrow> plain_heads (sub_feat u)"
proof (induction u rule: sub_feat.induct)
  case 1
  then show ?case by simp
next
  case (2 c cs)
  show ?case
  proof (cases "match_feat (c # cs)")
    case (Some rest)
    then have "plain_heads rest"
      using match_feat_suffix plain_heads_suffix "2.prems" by blast
    then show ?thesis using 2 Some by simp
  next
    case None
    have p: "plain_heads (sub_feat cs)" using 2 None by simp
    show ?thesis
    proof (cases "c = 40")
      case True
      then have "take 4 (sub_feat cs) = take 4 cs"
        using plain_heads_take4 "2.prems" sub_feat_keep4 by blast
      then show ?thesis using None p "2.prems" by simp
    next
      case False
      then show ?thesis using None p by simp
    qed
  qed
qed

lemma sub_feat_clean: "plain_heads u \<Longrightarrow> \<not> has_feat (sub_feat u)"
proof (induction u rule: sub_feat.induct)
  case 1
  then show ?case by simp
next
  case (2 c cs)
  show ?case
  proof (cases "match_feat (c # cs)")
    case (Some rest)
    then have "plain_heads rest"
      using match_feat_suffix plain_heads_suffix "2.prems" by blast
    then show ?thesis using 2 Some by simp
  next
    case None
    have p: "\<not> has_feat (sub_feat cs)" using 2 None by simp
    have "match_feat (c # sub_feat cs) = None"
    proof (cases "c = 40")
      case True
      then have "40 \<notin> set (take 4 cs)" using plain_heads_take4 "2.prems" by blast
      then show ?thesis using feat_after_sub_feat None by blast
    next
      case False
      then show ?thesis by (rule match_feat_head)
    qed
    then show ?thesis using None p by simp
  qed
qed

lemma sub_bracket_no_new_feat: "plain_heads u \<Longrightarrow> has_feat (sub_bracket u) \<Longrightarrow> has_feat u"
proof (induction u rule: sub_bracket.induct)
  case 1
  then show ?case by simp
next
  case (2 c cs)
  show ?case
  proof (cases "match_bracket (c # cs)")
    case (Some rest)
    then have s: "suffix rest (c # cs)" by (rule match_bracket_suffix)
    then have "plain_heads rest" using plain_heads_suffix "2.prems"(1) by blast
    then have "has_feat rest" using 2 Some by simp
    then show ?thesis using s has_feat_suffix by blast
  next
    case None
    then have h: "match_feat (c # sub_bracket cs) \<noteq> None \<or> has_feat (sub_bracket cs)"
      using "2.prems"(2) by simp
    show ?thesis
    proof (cases "match_feat (c # sub_bracket cs) \<noteq> None")
      case True
      then have "c = 40" unfolding match_feat_iff by blast
      then have "91 \<notin> set (take 4 cs)" using plain_heads_take4 "2.prems"(1) by blast
      then have "match_feat (c # cs) \<noteq> None" using feat_after_sub_bracket True by blast
      then show ?thesis by simp
    next
      case False
      then have "has_feat (sub_bracket cs)" using h by blast
      then have "has_feat cs" using 2 None by simp
      then show ?thesis by simp
    qed
  qed
qed

lemma open_bracket_stays_open:
  "match_bracket (91 # cs) = None \<Longrightarrow> match_bracket (91 # sub_bracket cs) = None"
proof (induction cs rule: sub_bracket.induct)
  case 1
  then show ?case by simp
next
  case (2 d ds)
  have ne: "d \<noteq> 93" using "2.prems" by (auto simp: match_bracket_def)
  show ?case
  proof (cases "d = 10")
    case True
    then show ?thesis by (simp add: match_bracket_def)
  next
    case False
    then have rest: "match_bracket (91 # ds) = None"
      using "2.prems" ne by (simp add: match_bracket_def)
    have here: "match_bracket (d # ds) = None"
    proof (cases "d = 91")
      case True
      then show ?thesis using rest by simp
    next
      case False
      then show ?thesis by (rule match_bracket_head)
    qed
    then have "match_bracket (91 # sub_bracket ds) = None" using 2 rest by simp
    then show ?thesis using here ne False by (simp add: match_bracket_def)
  qed
qed

lemma sub_bracket_clean: "\<not> has_bracket (sub_bracket u)"
proof (induction u rule: sub_bracket.induct)
  case 1
  then show ?case by simp
next
  case (2 c cs)
  show ?case
  proof (cases "match_bracket (c # cs)")
    case (Some rest)
    then show ?thesis using 2 by simp
  next
    case None
    have "match_bracket (c # sub_bracket cs) = None"
    proof (cases "c = 91")
      case True
      then show ?thesis using None by (simp add: open_bracket_stays_open)
    next
      case False
      then show ?thesis by (rule match_bracket_head)
    qed
    then show ?thesis using 2 None by simp
  qed
qed

lemma strip_middle: "\<exists>a b. u = a @ strip u @ b"
proof -
  let ?x = "dropWhile isspace u"
  have "rev (takeWhile isspace (rev ?x) @ dropWhile isspace (rev ?x)) = rev (rev ?x)"
    by (simp only: takeWhile_dropWhile_id)
  then have "rev (dropWhile isspace (rev ?x)) @ rev (takeWhile isspace (rev ?x)) = ?x"
    by (simp only: rev_append rev_rev_ident)
  then have "?x = strip u @ rev (takeWhile isspace (rev ?x))"
    by (simp only: strip_def)
  moreover have "u = takeWhile isspace u @ ?x" by simp
  ultimately show ?thesis by metis
qed

lemma stripped_strip: "stripped (strip u)"
  using strip_ends [of u] by (auto simp: stripped_def)

lemma match_feat_extend: "match_feat (c # cs) \<noteq> None \<Longrightarrow> match_feat (c # cs @ b) \<noteq> None"
proof -
  assume "match_feat (c # cs) \<noteq> None"
  then have c: "c = 40" and p: "ci_prefix (lit ''feat'') (take 4 cs) = Some []"
    and m: "41 \<in> set (drop 4 cs)"
    unfolding match_feat_iff by blast+
  have "length (take 4 cs) = 4" using ci_prefix_length [OF p] by (simp add: lit_def)
  then have "4 \<le> length cs" by simp
  then have t: "take 4 (cs @ b) = take 4 cs" and d: "drop 4 (cs @ b) = drop 4 cs @ b" by simp_all
  show ?thesis unfolding match_feat_iff t d using c p m by simp
qed

lemma match_bracket_extend: "match_bracket (c # cs) \<noteq> None \<Longrightarrow> match_bracket (c # cs @ b) \<noteq> None"
proof -
  assume a: "match_bracket (c # cs) \<noteq> None"
  then have c: "c = 91" by (metis match_bracket_head)
  let ?P = "\<lambda>d. d \<noteq> (93::nat) \<and> d \<noteq> 10"
  obtain d rest where d: "dropWhile ?P cs = d # rest"
    using a c by (cases "dropWhile ?P cs") (simp_all add: match_bracket_def)
  then have "d = 93" using a c by (simp add: match_bracket_def split: if_splits)
  have "d \<in> set cs" "\<not> ?P d"
    using d set_dropWhileD [of d ?P cs] hd_dropWhile [of ?P cs] by auto
  then have "dropWhile ?P (cs @ b) = dropWhile ?P cs @ b" by (rule dropWhile_append1)
  then show ?thesis using c d \<open>d = 93\<close> by (simp add: match_bracket_def)
qed

lemma has_feat_append: "has_feat v \<Longrightarrow> has_feat (a @ v @ b)"
proof -
  assume "has_feat v"
  then have "has_feat (v @ b)"
  proof (induction v)
    case Nil
    then show ?case by simp
  next
    case (Cons c cs)
    show ?case
    proof (cases "match_feat (c # cs) \<noteq> None")
      case True
      then have "match_feat (c # cs @ b) \<noteq> None" by (rule match_feat_extend)
      then show ?thesis by simp
    next
      case False
      then have "has_feat cs" using Cons.prems by simp
      then have "has_feat (cs @ b)" by (rule Cons.IH)
      then show ?thesis by simp
    qed
  qed
  moreover have "suffix (v @ b) (a @ v @ b)" by (rule suffixI) simp
  ultimately show ?thesis using has_feat_suffix by blast
qed

lemma has_bracket_append: "has_bracket v \<Longrightarrow> has_bracket (a @ v @ b)"
proof -
  assume "has_bracket v"
  then have "has_bracket (v @ b)"
  proof (induction v)
    case Nil
    then show ?case by simp
  next
    case (Cons c cs)
    show ?case
    proof (cases "match_bracket (c # cs) \<noteq> None")
      case True
      then have "match_bracket (c # cs @ b) \<noteq> None" by (rule match_bracket_extend)
      then show ?thesis by simp
    next
      case False
      then have "has_bracket cs" using Cons.prems by simp
      then have "has_bracket (cs @ b)" by (rule Cons.IH)
      then show ?thesis by simp
    qed
  qed
  moreover have "suffix (v @ b) (a @ v @ b)" by (rule suffixI) simp
  ultimately show ?thesis using has_bracket_suffix by blast
qed

lemma has_feat_strip: "has_feat (strip u) \<Longrightarrow> has_feat u"
  using strip_middle [of u] has_feat_append by metis

lemma has_bracket_strip: "has_bracket (strip u) \<Longrightarrow> has_bracket u"
  using strip_middle [of u] has_bracket_append by metis

text \<open>
  Claim C4, amended. For every raw name the output of the Name Normalizer has no
  leading or trailing white space and contains no bracketed substring on one line (an
  opening bracket, text without a line feed, a closing bracket); and it contains no feat
  parenthetical (matched case-insensitively) whenever in the raw name no opening
  parenthesis is followed within four characters by another opening parenthesis or an
  opening bracket.
\<close>

theorem clean_name_result:
  "stripped (clean_name n) \<and> \<not> has_bracket (clean_name n) \<and>
   (plain_heads n \<longrightarrow> \<not> has_feat (clean_name n))"
proof (intro conjI impI)
  show "stripped (clean_name n)"
    unfolding clean_name_def by (rule stripped_strip)
  show "\<not> has_bracket (clean_name n)"
    unfolding clean_name_def using sub_bracket_clean has_bracket_strip by blast
  assume p: "plain_heads n"
  then have "plain_heads (sub_feat n)" "\<not> has_feat (sub_feat n)"
    by (simp_all add: sub_feat_plain sub_feat_clean)
  then have "\<not> has_feat (sub_bracket (sub_feat n))"
    using sub_bracket_no_new_feat by blast
  then show "\<not> has_feat (clean_name n)"
    unfolding clean_name_def using has_feat_strip by blast
qed

text \<open>The name of the second end-to-end scenario of the specification.\<close>

lemmas search_defs = match_feat_def match_bracket_def lit_def ci_char_def strip_def isspace_def
  clean_name_def

theorem clean_name_result_witness:
  "plain_heads (lit ''Drake (feat. 21 Savage) [Remix]'') \<and>
   clean_name (lit ''Drake (feat. 21 Savage) [Remix]'') = lit ''Drake'' \<and>
   stripped (lit ''Drake'') \<and> \<not> has_bracket (lit ''Drake'') \<and> \<not> has_feat (lit ''Drake'')"
proof -
  have p: "plain_heads (lit ''Drake (feat. 21 Savage) [Remix]'')"
    by (simp add: lit_def)
  have c: "clean_name (lit ''Drake (feat. 21 Savage) [Remix]'') = lit ''Drake''"
    by (simp add: search_defs)
  from clean_name_result [of "lit ''Drake (feat. 21 Savage) [Remix]''"] p
  show ?thesis unfolding c using p by blast
qed

text \<open>
  The claim as stated fails: each pattern is removed in one pass from left to right, so
  removing the bracket of \<^verbatim>\<open>(fe[x]at)\<close> leaves \<^verbatim>\<open>(feat)\<close>; and the bracket pattern
  does not match across a line feed, so a bracket holding one stays.
\<close>

theorem clean_name_leftover_counterexample:
  "clean_name (lit ''(fe[x]at)'') = lit ''(feat)'' \<and> has_feat (lit ''(feat)'') \<and>
   clean_name [91, 10, 93] = [91, 10, 93] \<and> bracketed [91, 10, 93]"
  by (simp add: search_defs bracketed_def)

end
